theory Spec2Isabelle
  imports Complex_Main "HOL-Library.Char_ord" "HOL-Library.List_Lexorder" "HOL-Library.Sublist"
    "HOL-Library.AList" "HOL-Library.Log_Nat"
begin

section \<open>Strings\<close>

text \<open>
  A Python \<open>str\<close> is modelled as a \<open>string\<close> whose characters are the code points
  below 256.  Among these, \<open>str.isspace\<close> holds for the twelve characters below;
  \<open>str.strip()\<close> removes them from both ends.
\<close>

definition isspace :: "char \<Rightarrow> bool" where
  "isspace c = (c \<in> {CHR 0x09, CHR 0x0A, CHR 0x0B, CHR 0x0C, CHR 0x0D,
                      CHR 0x1C, CHR 0x1D, CHR 0x1E, CHR 0x1F, CHR 0x20,
                      CHR 0x85, CHR 0xA0})"

definition strip :: "string \<Rightarrow> string" where
  "strip s = rev (dropWhile isspace (rev (dropWhile isspace s)))"

text \<open>\<open>sep.join(xs)\<close>\<close>

fun join :: "string \<Rightarrow> string list \<Rightarrow> string" where
  "join sep [] = []"
| "join sep [x] = x"
| "join sep (x # y # ys) = x @ sep @ join sep (y # ys)"

section \<open>Floats\<close>

text \<open>
  A Python float is an IEEE 754 double.  A finite double is modelled by the rational
  number it denotes; infinities and NaN are outside the model.  Comparisons, \<open>min\<close>
  and \<open>np.ceil\<close> are exact on doubles.  Every other arithmetic operation (\<open>+\<close>, \<open>-\<close>,
  \<open>*\<close>, \<open>/\<close>, the conversion of an \<open>int\<close> or of a decimal string to a float) returns
  the exact result rounded to a double.  The functions of the model take this
  rounding as their first argument \<open>rnd\<close>; the code is the instance
  \<open>rnd = round_double\<close>, and \<open>rnd = (\<lambda>x. x)\<close> is arithmetic without rounding.

  \<open>round_half_even\<close> rounds to the nearest integer, ties to the even one.  \<open>expo x\<close>
  is the binary exponent of a positive \<open>x\<close>: \<open>2 powi expo x \<le> x < 2 powi (expo x + 1)\<close>.
  \<open>round_double\<close> rounds to the nearest number with a 53-bit significand, ties to
  even, with the subnormal spacing \<open>2 powi (- 1074)\<close> below \<open>2 powi (- 1022)\<close>;
  overflow is not modelled.
\<close>

type_synonym rounding = "rat \<Rightarrow> rat"

definition round_half_even :: "rat \<Rightarrow> int" where
  "round_half_even r =
     (let f = \<lfloor>r\<rfloor>; d = r - of_int f
      in if d < 1 / 2 then f else if 1 / 2 < d then f + 1 else if even f then f else f + 1)"

definition expo :: "rat \<Rightarrow> int" where
  "expo x =
     (case quotient_of x of (p, q) \<Rightarrow>
        let e = bitlen p - bitlen q in if 2 powi e \<le> x then e else e - 1)"

definition round_double :: rounding where
  "round_double x =
     (if x = 0 then 0
      else let q = 2 powi (max (expo \<bar>x\<bar>) (- 1022) - 52)
           in of_int (round_half_even (x / q)) * q)"

section \<open>The merger: \<open>assign_speakers_to_transcription\<close>\<close>

text \<open>
  Times are Python floats.  A transcript segment is a dictionary with the keys
  \<open>start\<close>, \<open>end\<close>, \<open>text\<close> (read with \<open>.get("text", "")\<close>, hence optional) and,
  once the first loop has run, \<open>speaker\<close>.  A diarization row is a dictionary with
  the keys \<open>Start (sec)\<close>, \<open>End (sec)\<close> and \<open>Speaker\<close>; the two times are held as
  the numbers that \<open>float(...)\<close> reads from the row.
\<close>

record segment =
  seg_start :: rat
  seg_end :: rat
  seg_text :: "string option"
  seg_speaker :: "string option"

record interval =
  d_start :: rat
  d_end :: rat
  d_speaker :: string

text \<open>The inner \<open>for d in diarization_results\<close> loop with its \<open>break\<close>.\<close>

fun scan_intervals :: "rat \<Rightarrow> interval list \<Rightarrow> string option" where
  "scan_intervals midpoint [] = None"
| "scan_intervals midpoint (d # ds) =
     (if d_start d \<le> midpoint \<and> midpoint \<le> d_end d then Some (d_speaker d)
      else scan_intervals midpoint ds)"

text \<open>
  The body of the first loop.  \<open>assigned_speaker if assigned_speaker else "Unknown"\<close>
  tests truthiness: both \<open>None\<close> and the empty string give \<open>"Unknown"\<close>.
\<close>

definition assign_speaker :: "rounding \<Rightarrow> interval list \<Rightarrow> segment \<Rightarrow> segment" where
  "assign_speaker rnd diarization_results seg =
     (let midpoint = rnd (rnd (seg_start seg + seg_end seg) / 2);
          assigned_speaker = scan_intervals midpoint diarization_results
      in seg\<lparr>seg_speaker :=
               Some (case assigned_speaker of
                       None \<Rightarrow> ''Unknown''
                     | Some sp \<Rightarrow> if sp = [] then ''Unknown'' else sp)\<rparr>)"

definition label_segments ::
  "rounding \<Rightarrow> segment list \<Rightarrow> interval list \<Rightarrow> segment list" where
  "label_segments rnd transcription_segments diarization_results =
     map (assign_speaker rnd diarization_results) transcription_segments"

text \<open>\<open>seg.get("speaker", "Unknown")\<close> and \<open>seg.get("text", "")\<close>.\<close>

definition get_speaker :: "segment \<Rightarrow> string" where
  "get_speaker seg = (case seg_speaker seg of None \<Rightarrow> ''Unknown'' | Some sp \<Rightarrow> sp)"

definition get_text :: "segment \<Rightarrow> string" where
  "get_text seg = (case seg_text seg of None \<Rightarrow> [] | Some t \<Rightarrow> t)"

text \<open>How an f-string prints \<open>current_speaker\<close>, which starts as \<open>None\<close>.\<close>

definition fmt_speaker :: "string option \<Rightarrow> string" where
  "fmt_speaker current_speaker =
     (case current_speaker of None \<Rightarrow> ''None'' | Some sp \<Rightarrow> sp)"

definition merged_line :: "string option \<Rightarrow> string \<Rightarrow> string" where
  "merged_line current_speaker current_text =
     fmt_speaker current_speaker @ '': '' @ strip current_text"

text \<open>
  The second loop, over the state \<open>(merged_lines, current_speaker, current_text)\<close>.
\<close>

fun merge_loop ::
  "segment list \<Rightarrow> string list \<Rightarrow> string option \<Rightarrow> string \<Rightarrow>
   string list \<times> string option \<times> string" where
  "merge_loop [] merged_lines current_speaker current_text =
     (merged_lines, current_speaker, current_text)"
| "merge_loop (seg # segs) merged_lines current_speaker current_text =
     (let speaker = get_speaker seg;
          text = strip (get_text seg)
      in if current_speaker \<noteq> Some speaker then
           merge_loop segs
             (if current_speaker \<noteq> None
              then merged_lines @ [merged_line current_speaker current_text]
              else merged_lines)
             (Some speaker) (text @ '' '')
         else merge_loop segs merged_lines current_speaker (current_text @ text @ '' ''))"

definition merge_segments :: "segment list \<Rightarrow> string" where
  "merge_segments segs =
     (case merge_loop segs [] None [] of
        (merged_lines, current_speaker, current_text) \<Rightarrow>
          join ''\<newline>\<newline>''
            (if current_text \<noteq> []
             then merged_lines @ [merged_line current_speaker current_text]
             else merged_lines))"

definition assign_speakers_to_transcription ::
  "rounding \<Rightarrow> segment list \<Rightarrow> interval list \<Rightarrow> string" where
  "assign_speakers_to_transcription rnd transcription_segments diarization_results =
     (if transcription_segments = [] then []
      else merge_segments (label_segments rnd transcription_segments diarization_results))"

subsection \<open>Paragraphs, as the specification words them\<close>

text \<open>
  \<open>runs\<close> cuts a list of (speaker, text) pairs into its maximal runs of equal
  speakers.  \<open>spec_paragraphs\<close> follows the wording of the specification: the text
  of a paragraph is the trimmed texts joined by single spaces.  \<open>paragraphs\<close> trims
  the joined text once more.
\<close>

fun runs :: "('a \<times> 'b) list \<Rightarrow> ('a \<times> 'b list) list" where
  "runs [] = []"
| "runs ((k, v) # xs) =
     (case runs xs of
        [] \<Rightarrow> [(k, [v])]
      | (k', vs) # rs \<Rightarrow> if k = k' then (k, v # vs) # rs else (k, [v]) # (k', vs) # rs)"

definition unruns :: "('a \<times> 'b list) list \<Rightarrow> ('a \<times> 'b) list" where
  "unruns rs = concat (map (\<lambda>(k, vs). map (Pair k) vs) rs)"

definition labelled_texts :: "segment list \<Rightarrow> (string \<times> string) list" where
  "labelled_texts segs = map (\<lambda>seg. (get_speaker seg, strip (get_text seg))) segs"

definition spec_paragraphs :: "segment list \<Rightarrow> string list" where
  "spec_paragraphs segs =
     map (\<lambda>(speaker, texts). speaker @ '': '' @ join '' '' texts)
       (runs (labelled_texts segs))"

definition paragraphs :: "segment list \<Rightarrow> string list" where
  "paragraphs segs =
     map (\<lambda>(speaker, texts). speaker @ '': '' @ strip (join '' '' texts))
       (runs (labelled_texts segs))"

definition mk_segment :: "rat \<Rightarrow> rat \<Rightarrow> string \<Rightarrow> segment" where
  "mk_segment s e t = \<lparr>seg_start = s, seg_end = e, seg_text = Some t, seg_speaker = None\<rparr>"

definition mk_interval :: "rat \<Rightarrow> rat \<Rightarrow> string \<Rightarrow> interval" where
  "mk_interval s e sp = \<lparr>d_start = s, d_end = e, d_speaker = sp\<rparr>"

text \<open>Vocabulary for stating the assignment rule and the loop invariant.\<close>

definition midpoint :: "rounding \<Rightarrow> segment \<Rightarrow> rat" where
  "midpoint rnd seg = rnd (rnd (seg_start seg + seg_end seg) / 2)"

definition covers :: "interval \<Rightarrow> rat \<Rightarrow> bool" where
  "covers d m = (d_start d \<le> m \<and> m \<le> d_end d)"

definition cat :: "string list \<Rightarrow> string" where
  "cat ts = concat (map (\<lambda>t. t @ '' '') ts)"

definition finish :: "string list \<times> string option \<times> string \<Rightarrow> string list" where
  "finish st =
     (case st of (merged_lines, current_speaker, current_text) \<Rightarrow>
        if current_text \<noteq> [] then merged_lines @ [merged_line current_speaker current_text]
        else merged_lines)"

definition para :: "string \<times> string list \<Rightarrow> string" where
  "para r = (case r of (speaker, texts) \<Rightarrow> speaker @ '': '' @ strip (cat texts))"

section \<open>Files and external tools\<close>

text \<open>
  Paths are numbers.  The world holds the files that exist and the \<open>ffmpeg\<close>
  commands issued so far, in order.  \<open>tempfile.NamedTemporaryFile(delete=False)\<close>
  creates a file under a name that no existing file has; \<open>subprocess.run\<close> is
  called without \<open>check=True\<close>, so a failing \<open>ffmpeg\<close> raises nothing.
\<close>

type_synonym path = nat

datatype ffmpeg_cmd =
    Slice (cmd_input: path) (cmd_ss: rat) (cmd_t: rat) (cmd_output: path)
  | Resample (cmd_input: path) (cmd_rate: nat) (cmd_output: path)

datatype error =
    ZeroDivisionError
  | FileNotFoundError
  | KeyError
  | ModelError
  | PipelineError

datatype notice = StWarning | StError error | StSuccess

record world =
  files :: "path list"
  ffmpeg_calls :: "ffmpeg_cmd list"
  notices :: "notice list"

definition fresh :: "path list \<Rightarrow> path" where
  "fresh ps = Suc (foldr max ps 0)"

definition named_temporary_file :: "world \<Rightarrow> path \<times> world" where
  "named_temporary_file w = (let p = fresh (files w) in (p, w\<lparr>files := p # files w\<rparr>))"

definition ffmpeg :: "ffmpeg_cmd \<Rightarrow> world \<Rightarrow> world" where
  "ffmpeg c w = w\<lparr>ffmpeg_calls := ffmpeg_calls w @ [c]\<rparr>"

definition os_remove :: "path \<Rightarrow> world \<Rightarrow> error + world" where
  "os_remove p w =
     (if p \<in> set (files w) then Inr (w\<lparr>files := removeAll p (files w)\<rparr>)
      else Inl FileNotFoundError)"

definition notify :: "notice \<Rightarrow> world \<Rightarrow> world" where
  "notify n w = w\<lparr>notices := notices w @ [n]\<rparr>"

section \<open>The chunker: \<open>segment_audio\<close>\<close>

text \<open>
  \<open>total_duration\<close> and \<open>file_size\<close> are what \<open>get_audio_duration(file_path)\<close> and
  \<open>os.path.getsize(file_path)\<close> return; they are arguments of the model.  Durations
  are doubles, sizes are integers, and \<open>max_duration\<close> is the double that the bound
  converts to (600 is one).  \<open>num_segments\<close> and the loop counter \<open>i\<close> are integers,
  converted to doubles where they meet one.  Dividing by zero raises
  \<open>ZeroDivisionError\<close>.
\<close>

fun segment_loop ::
  "rounding \<Rightarrow> path \<Rightarrow> rat \<Rightarrow> rat \<Rightarrow> nat list \<Rightarrow> (path \<times> rat) list \<Rightarrow> world \<Rightarrow>
   (path \<times> rat) list \<times> world" where
  "segment_loop rnd file_path total_duration segment_duration [] segments w = (segments, w)"
| "segment_loop rnd file_path total_duration segment_duration (i # is) segments w =
     (let chunk_start = rnd (rnd (of_nat i) * segment_duration);
          current_duration = min segment_duration (rnd (total_duration - chunk_start));
          (segment_path, w1) = named_temporary_file w;
          w2 = ffmpeg (Slice file_path chunk_start current_duration segment_path) w1
      in segment_loop rnd file_path total_duration segment_duration is
           (segments @ [(segment_path, chunk_start)]) w2)"

definition segment_audio ::
  "rounding \<Rightarrow> world \<Rightarrow> path \<Rightarrow> rat \<Rightarrow> int \<Rightarrow> rat \<Rightarrow> int \<Rightarrow>
   (error + (path \<times> rat) list) \<times> world" where
  "segment_audio rnd w file_path total_duration file_size max_duration max_file_size =
     (if total_duration \<le> max_duration \<and> file_size \<le> max_file_size
      then (Inr [(file_path, 0)], w)
      else if max_duration = 0 then (Inl ZeroDivisionError, w)
      else let num_segments = \<lceil>rnd (total_duration / max_duration)\<rceil>
           in if num_segments = 0 then (Inl ZeroDivisionError, w)
              else let segment_duration = rnd (total_duration / rnd (of_int num_segments));
                       (segments, w') =
                          segment_loop rnd file_path total_duration segment_duration
                            [0..<nat num_segments] [] w
                   in (Inr segments, w'))"

text \<open>
  The plan as (start offset, duration) pairs.  The duration of a chunk that an
  \<open>ffmpeg\<close> call of this run wrote is that call's \<open>-t\<close> argument; a chunk that no call
  wrote is the input file, whose duration is \<open>total_duration\<close>.
\<close>

definition new_calls :: "world \<Rightarrow> world \<Rightarrow> ffmpeg_cmd list" where
  "new_calls w w' = drop (length (ffmpeg_calls w)) (ffmpeg_calls w')"

definition chunk_duration :: "ffmpeg_cmd list \<Rightarrow> rat \<Rightarrow> path \<Rightarrow> rat" where
  "chunk_duration calls total_duration p =
     (case map_of (map (\<lambda>c. (cmd_output c, cmd_t c)) calls) p of
        Some d \<Rightarrow> d
      | None \<Rightarrow> total_duration)"

definition chunk_plan ::
  "rounding \<Rightarrow> world \<Rightarrow> path \<Rightarrow> rat \<Rightarrow> int \<Rightarrow> rat \<Rightarrow> int \<Rightarrow> error + (rat \<times> rat) list" where
  "chunk_plan rnd w file_path total_duration file_size max_duration max_file_size =
     (case segment_audio rnd w file_path total_duration file_size max_duration max_file_size of
        (Inl e, w') \<Rightarrow> Inl e
      | (Inr segments, w') \<Rightarrow>
          Inr (map (\<lambda>(p, chunk_start).
                      (chunk_start, chunk_duration (new_calls w w') total_duration p))
                 segments))"

text \<open>
  The plan as the loop computes it: the number of segments, their length, the start
  of segment \<open>i\<close>, and the list of (start offset, duration) pairs.
\<close>

definition float_count :: "rounding \<Rightarrow> rat \<Rightarrow> rat \<Rightarrow> nat" where
  "float_count rnd total_duration max_duration = nat \<lceil>rnd (total_duration / max_duration)\<rceil>"

definition float_length :: "rounding \<Rightarrow> rat \<Rightarrow> rat \<Rightarrow> rat" where
  "float_length rnd total_duration max_duration =
     rnd (total_duration / rnd (of_int \<lceil>rnd (total_duration / max_duration)\<rceil>))"

definition float_start :: "rounding \<Rightarrow> rat \<Rightarrow> nat \<Rightarrow> rat" where
  "float_start rnd segment_duration i = rnd (rnd (of_nat i) * segment_duration)"





text \<open>The \<open>ffmpeg\<close> command of iteration \<open>i\<close> of the loop, writing to \<open>p\<close>, as a function of \<open>(p, i)\<close>.\<close>

definition slice_cmd :: "rounding \<Rightarrow> path \<Rightarrow> rat \<Rightarrow> rat \<Rightarrow> path \<times> nat \<Rightarrow> ffmpeg_cmd" where
  "slice_cmd rnd file_path total_duration segment_duration x =
     Slice file_path (float_start rnd segment_duration (snd x))
       (min segment_duration (rnd (total_duration - float_start rnd segment_duration (snd x))))
       (fst x)"

text \<open>A world for examples: the input file \<open>0\<close> exists, nothing has run yet.\<close>

definition w0 :: world where
  "w0 = \<lparr>files = [0], ffmpeg_calls = [], notices = []\<rparr>"

text \<open>The names that \<open>k\<close> successive temporary files get, starting from the files \<open>fs\<close>.\<close>

fun temps :: "path list \<Rightarrow> nat \<Rightarrow> path list" where
  "temps fs 0 = []"
| "temps fs (Suc k) = fresh fs # temps (fresh fs # fs) k"

section \<open>Transcription: \<open>transcribe_audio\<close>\<close>

text \<open>
  The loaded Whisper model is a function from the path it is given to the pair
  \<open>(result["text"], result.get("segments", []))\<close>, or to the exception it raises.
  The progress bar and the spinners are not modelled.
\<close>

type_synonym whisper = "path \<Rightarrow> error + string \<times> segment list"

definition offset_segment :: "rounding \<Rightarrow> rat \<Rightarrow> segment \<Rightarrow> segment" where
  "offset_segment rnd chunk_start s =
     s\<lparr>seg_start := rnd (seg_start s + chunk_start),
       seg_end := rnd (seg_end s + chunk_start)\<rparr>"

fun transcribe_loop ::
  "rounding \<Rightarrow> whisper \<Rightarrow> path \<Rightarrow> (path \<times> rat) list \<Rightarrow> string \<Rightarrow> segment list \<Rightarrow> world \<Rightarrow>
   (error + string \<times> segment list) \<times> world" where
  "transcribe_loop rnd model file_path [] full_text transcription_segments w =
     (Inr (full_text, transcription_segments), w)"
| "transcribe_loop rnd model file_path ((seg, chunk_start) # rest) full_text
      transcription_segments w =
     (case model seg of
        Inl e \<Rightarrow> (Inl e, w)
      | Inr (text, seg_segments) \<Rightarrow>
          let full_text' = full_text @ strip text @ '' '';
              transcription_segments' =
                transcription_segments @ map (offset_segment rnd chunk_start) seg_segments
          in if seg \<noteq> file_path then
               (case os_remove seg w of
                  Inl e \<Rightarrow> (Inl e, w)
                | Inr w' \<Rightarrow>
                    transcribe_loop rnd model file_path rest full_text'
                      transcription_segments' w')
             else transcribe_loop rnd model file_path rest full_text'
                    transcription_segments' w)"

definition transcribe_audio ::
  "rounding \<Rightarrow> world \<Rightarrow> path \<Rightarrow> rat \<Rightarrow> int \<Rightarrow> whisper \<Rightarrow>
   (error + string \<times> segment list) \<times> world" where
  "transcribe_audio rnd w file_path total_duration file_size model =
     (case segment_audio rnd w file_path total_duration file_size 600 (100 * 1024 * 1024) of
        (Inl e, w') \<Rightarrow> (Inl e, w')
      | (Inr segments, w') \<Rightarrow>
          if length segments = 1 then
            (case model file_path of
               Inl e \<Rightarrow> (Inl e, w')
             | Inr (text, segs) \<Rightarrow> (Inr (strip text, segs), w'))
          else
            (case transcribe_loop rnd model file_path segments [] [] w' of
               (Inl e, w'') \<Rightarrow> (Inl e, w'')
             | (Inr (full_text, transcription_segments), w'') \<Rightarrow>
                 (Inr (strip full_text, transcription_segments), w'')))"

section \<open>The application: \<open>main\<close>\<close>

text \<open>
  The session state of the application.  The speaker map is a dictionary from the
  original labels to the names typed by the user, held as an association list.
\<close>

record session_state =
  transcription_done :: bool
  transcription_text :: string
  transcription_segments :: "segment list"
  diarization_results :: "interval list"
  final_transcript :: string
  speaker_map :: "(string \<times> string) list"

definition cleared :: "session_state \<Rightarrow> session_state" where
  "cleared ss =
     ss\<lparr>transcription_done := False, transcription_text := [],
        transcription_segments := [], diarization_results := [],
        final_transcript := [], speaker_map := []\<rparr>"

subsection \<open>The diarization block\<close>

text \<open>
  The pyannote pipeline is given by what \<open>Pipeline.from_pretrained\<close> does (it raises
  or it returns) and by the tracks \<open>(start, end, speaker)\<close> that the pipeline yields
  for a file, or the exception it raises.  \<open>pipeline.to(device)\<close> sits in its own
  \<open>try ... except: pass\<close> and has no effect on what follows.
\<close>

record diarizer =
  from_pretrained :: "error option"
  run_pipeline :: "path \<Rightarrow> error + (rat \<times> rat \<times> string) list"

text \<open>
  \<open>f"{x:.2f}"\<close>: the decimal with two digits nearest to the double, ties to the even
  digit.  \<open>float\<close> later reads it back as the nearest double.
\<close>

definition fmt2 :: "rat \<Rightarrow> rat" where
  "fmt2 x = of_int (round_half_even (x * 100)) / 100"

definition convert_to_wav :: "path \<Rightarrow> nat \<Rightarrow> world \<Rightarrow> path \<times> world" where
  "convert_to_wav input_path sr w =
     (let (wav_path, w1) = named_temporary_file w
      in (wav_path, ffmpeg (Resample input_path sr wav_path) w1))"

text \<open>The body of the \<open>try\<close>: the exception it raises, if any, and the state reached.\<close>

definition diarization_try ::
  "rounding \<Rightarrow> diarizer \<Rightarrow> path \<Rightarrow> session_state \<Rightarrow> world \<Rightarrow>
   error option \<times> session_state \<times> world" where
  "diarization_try rnd dz file_path ss w =
     (case from_pretrained dz of
        Some e \<Rightarrow> (Some e, ss, w)
      | None \<Rightarrow>
          let (diarization_wav, w1) = convert_to_wav file_path 16000 w
          in (case run_pipeline dz diarization_wav of
                Inl e \<Rightarrow> (Some e, ss, w1)
              | Inr tracks \<Rightarrow>
                  let rows = map (\<lambda>(s, e, speaker).
                                    \<lparr>d_start = rnd (fmt2 s), d_end = rnd (fmt2 e),
                                     d_speaker = speaker\<rparr>)
                                 tracks;
                      ss1 = ss\<lparr>diarization_results := rows\<rparr>
                  in (case os_remove diarization_wav w1 of
                        Inl e \<Rightarrow> (Some e, ss1, w1)
                      | Inr w2 \<Rightarrow> (None, ss1, w2))))"

text \<open>\<open>try: ... except Exception as e: st.error(...)\<close>\<close>

definition diarization_block ::
  "rounding \<Rightarrow> diarizer \<Rightarrow> path \<Rightarrow> session_state \<Rightarrow> world \<Rightarrow> session_state \<times> world" where
  "diarization_block rnd dz file_path ss w =
     (case diarization_try rnd dz file_path ss w of
        (Some e, ss', w') \<Rightarrow> (ss', notify (StError e) w')
      | (None, ss', w') \<Rightarrow> (ss', w'))"

subsection \<open>The Transcribe button\<close>

text \<open>
  One press of the button.  The uploaded file is given by what the probes say of
  its copy on disk (duration and size), or is absent.  The first component of the
  result is the exception that leaves \<open>main\<close>, if any: it ends the run.
\<close>

definition on_transcribe ::
  "rounding \<Rightarrow> (rat \<times> int) option \<Rightarrow> bool \<Rightarrow> bool \<Rightarrow> whisper \<Rightarrow> diarizer \<Rightarrow>
   session_state \<Rightarrow> world \<Rightarrow> error option \<times> session_state \<times> world" where
  "on_transcribe rnd uploaded_file enable_diarization pipeline_imported model dz ss w =
     (case uploaded_file of
        None \<Rightarrow> (None, ss, notify StWarning w)
      | Some (total_duration, file_size) \<Rightarrow>
          let ss0 = cleared ss;
              (file_path, wa) = named_temporary_file w
          in (case transcribe_audio rnd wa file_path total_duration file_size model of
                (Inl e, w1) \<Rightarrow> (Some e, ss0, w1)
              | (Inr (text, segs), w1) \<Rightarrow>
                  let ss1 = ss0\<lparr>transcription_text := text,
                               transcription_segments := segs,
                               final_transcript := text,
                               transcription_done := True\<rparr>;
                      (ss2, w2) =
                         (if enable_diarization \<and> pipeline_imported
                          then diarization_block rnd dz file_path ss1 w1
                          else (ss1, w1))
                  in (case os_remove file_path w2 of
                        Inl e \<Rightarrow> (Some e, ss2, w2)
                      | Inr w3 \<Rightarrow> (None, ss2, notify StSuccess w3))))"

subsection \<open>Displaying the results\<close>

text \<open>
  \<open>assign_speakers_to_transcription\<close> writes the speaker into the segments it is
  given, so the segments of the session state come out labelled.
\<close>

definition display_results :: "rounding \<Rightarrow> session_state \<Rightarrow> session_state" where
  "display_results rnd ss =
     (if transcription_done ss then
        (if diarization_results ss \<noteq> [] then
           (if transcription_segments ss \<noteq> [] then
              ss\<lparr>final_transcript :=
                    assign_speakers_to_transcription rnd (transcription_segments ss)
                      (diarization_results ss),
                  transcription_segments :=
                    label_segments rnd (transcription_segments ss) (diarization_results ss)\<rparr>
            else ss\<lparr>final_transcript := transcription_text ss\<rparr>)
         else ss\<lparr>final_transcript := transcription_text ss\<rparr>)
      else ss)"

subsection \<open>Renaming the speakers\<close>

text \<open>
  \<open>s.replace(old, new)\<close>: the occurrences of \<open>old\<close> are found from the left and do
  not overlap.  With an empty \<open>old\<close>, \<open>new\<close> is put before every character and at the
  end.
\<close>

function replace_nonempty :: "string \<Rightarrow> string \<Rightarrow> string \<Rightarrow> string" where
  "replace_nonempty old new [] = []"
| "replace_nonempty old new (c # cs) =
     (if old \<noteq> [] \<and> prefix old (c # cs)
      then new @ replace_nonempty old new (drop (length old) (c # cs))
      else c # replace_nonempty old new cs)"
  by pat_completeness auto
termination
  by (relation "measure (\<lambda>(old, new, s). length s)") auto

definition replace :: "string \<Rightarrow> string \<Rightarrow> string \<Rightarrow> string" where
  "replace old new s =
     (if old = [] then new @ concat (map (\<lambda>c. c # new) s)
      else replace_nonempty old new s)"

text \<open>\<open>sorted({d["Speaker"] for d in st.session_state.diarization_results})\<close>\<close>

definition speaker_labels :: "interval list \<Rightarrow> string list" where
  "speaker_labels rows = sort (remdups (map d_speaker rows))"

text \<open>
  The loop under the rename button; \<open>st.session_state.speaker_map[lbl]\<close> raises
  \<open>KeyError\<close> for a label that the map lacks.
\<close>

fun rename_loop :: "string list \<Rightarrow> (string \<times> string) list \<Rightarrow> string \<Rightarrow> error + string" where
  "rename_loop [] m updated_text = Inr updated_text"
| "rename_loop (lbl # lbls) m updated_text =
     (case map_of m lbl of
        None \<Rightarrow> Inl KeyError
      | Some new_name \<Rightarrow>
          rename_loop lbls m (replace (lbl @ '':'') (new_name @ '':'') updated_text))"

definition rename_speakers ::
  "interval list \<Rightarrow> (string \<times> string) list \<Rightarrow> string \<Rightarrow> error + string" where
  "rename_speakers rows m text = rename_loop (speaker_labels rows) m text"

text \<open>
  The widgets before the button: an empty map is first filled with the identity;
  then every label is set to what its text input returns, a function of the label
  and of the value shown by default.
\<close>

definition init_speaker_map :: "string list \<Rightarrow> (string \<times> string) list \<Rightarrow> (string \<times> string) list" where
  "init_speaker_map lbls m =
     (if m = [] then foldl (\<lambda>m lbl. AList.update lbl lbl m) m lbls else m)"

fun input_loop ::
  "string list \<Rightarrow> (string \<Rightarrow> string \<Rightarrow> string) \<Rightarrow> (string \<times> string) list \<Rightarrow>
   error + (string \<times> string) list" where
  "input_loop [] text_input m = Inr m"
| "input_loop (lbl # lbls) text_input m =
     (case map_of m lbl of
        None \<Rightarrow> Inl KeyError
      | Some v \<Rightarrow> input_loop lbls text_input (AList.update lbl (text_input lbl v) m))"

text \<open>The rename section of one run in which the rename button is pressed.\<close>

definition apply_rename ::
  "(string \<Rightarrow> string \<Rightarrow> string) \<Rightarrow> session_state \<Rightarrow> error + session_state" where
  "apply_rename text_input ss =
     (let lbls = speaker_labels (diarization_results ss)
      in if lbls = [] then Inr ss
         else (case input_loop lbls text_input (init_speaker_map lbls (speaker_map ss)) of
                 Inl e \<Rightarrow> Inl e
               | Inr m \<Rightarrow>
                   (case rename_loop lbls m (final_transcript ss) of
                      Inl e \<Rightarrow> Inl e
                    | Inr updated_text \<Rightarrow>
                        Inr (ss\<lparr>speaker_map := m, final_transcript := updated_text\<rparr>))))"

text \<open>
  For comparison: one pass over the text that, at each position, replaces the first
  label of the list that starts there and goes on after it.
\<close>

function simultaneous_rename :: "(string \<times> string) list \<Rightarrow> string \<Rightarrow> string" where
  "simultaneous_rename pairs [] = []"
| "simultaneous_rename pairs (c # cs) =
     (case find (\<lambda>(old, new). prefix (old @ '':'') (c # cs)) pairs of
        Some (old, new) \<Rightarrow>
          new @ '':'' @ simultaneous_rename pairs (drop (length (old @ '':'')) (c # cs))
      | None \<Rightarrow> c # simultaneous_rename pairs cs)"
  by pat_completeness auto
termination
  by (relation "measure (\<lambda>(pairs, s). length s)") auto

section \<open>Example data\<close>

text \<open>The diarization rows of the example of the specification.\<close>

definition ex_rows :: "interval list" where
  "ex_rows = [mk_interval 0 2 ''A'', mk_interval 2 4 ''B'']"

text \<open>
  A session in which the user renames \<open>SPEAKER_00\<close> to \<open>SPEAKER_01\<close> and
  \<open>SPEAKER_01\<close> to \<open>Bob\<close>.
\<close>

definition cascade_rows :: "interval list" where
  "cascade_rows = [mk_interval 0 2 ''SPEAKER_01'', mk_interval 2 4 ''SPEAKER_00'']"

definition cascade_text :: string where
  "cascade_text = ''SPEAKER_00: hi\<newline>\<newline>SPEAKER_01: yo''"

definition cascade_input :: "string \<Rightarrow> string \<Rightarrow> string" where
  "cascade_input lbl v = (if lbl = ''SPEAKER_00'' then ''SPEAKER_01'' else ''Bob'')"

definition cascade_state :: session_state where
  "cascade_state =
     \<lparr>transcription_done = True, transcription_text = ''hi yo'', transcription_segments = [],
      diarization_results = cascade_rows, final_transcript = cascade_text, speaker_map = []\<rparr>"




definition d_0_02 :: rat where
  "d_0_02 = 5764607523034235 / 288230376151711744"

definition d_0_03 :: rat where
  "d_0_03 = 1080863910568919 / 36028797018963968"

definition d_0_04 :: rat where
  "d_0_04 = 5764607523034235 / 144115188075855872"


text \<open>A pipeline that cannot be loaded, and the session state of a fresh session.\<close>

definition failing_loader :: diarizer where
  "failing_loader = \<lparr>from_pretrained = Some PipelineError, run_pipeline = (\<lambda>p. Inr [])\<rparr>"

definition blank_state :: session_state where
  "blank_state =
     \<lparr>transcription_done = False, transcription_text = [], transcription_segments = [],
      diarization_results = [], final_transcript = [], speaker_map = []\<rparr>"

section \<open>Properties of the rounding\<close>

lemma pow2_less_cancel: "(2::rat) powi a \<le> x \<Longrightarrow> x < 2 powi b \<Longrightarrow> a < b"
proof (rule ccontr)
  assume a: "(2::rat) powi a \<le> x" "x < 2 powi b" and "\<not> a < b"
  then have "b \<le> a" by simp
  then have "(2::rat) powi b \<le> 2 powi a" by (intro power_int_increasing) simp_all
  with a show False by simp
qed

lemma bitlen_rat_bounds:
  assumes "0 < (p::int)"
  shows "(2::rat) powi (bitlen p - 1) \<le> of_int p" and "of_int p < (2::rat) powi bitlen p"
proof -
  from bitlen_bounds[OF assms]
  have b: "2 ^ nat (bitlen p - 1) \<le> p" "p < 2 ^ nat (bitlen p)" by simp_all
  from assms have b1: "1 \<le> bitlen p" by (simp add: bitlen_alt_def)
  have "(of_int (2 ^ nat (bitlen p - 1)) :: rat) \<le> of_int p"
    using b(1) by (simp only: of_int_le_iff)
  then show "(2::rat) powi (bitlen p - 1) \<le> of_int p"
    using b1 by (simp add: power_int_def)
  have "(of_int p :: rat) < of_int (2 ^ nat (bitlen p))"
    using b(2) by (simp only: of_int_less_iff)
  then show "of_int p < (2::rat) powi bitlen p"
    using b1 by (simp add: power_int_def)
qed

lemma expo_bounds:
  assumes "0 < x"
  shows "2 powi expo x \<le> x" and "x < 2 powi (expo x + 1)"
proof -
  obtain p q where pq: "quotient_of x = (p, q)" by (cases "quotient_of x")
  then have q: "0 < q" by (rule quotient_of_denom_pos)
  from pq have x: "x = of_int p / of_int q" by (rule quotient_of_div)
  with assms q have p: "0 < p" by (simp add: zero_less_divide_iff)
  let ?e = "bitlen p - bitlen q"
  note bp = bitlen_rat_bounds[OF p] and bq = bitlen_rat_bounds[OF q]
  have qpos: "(0::rat) < of_int q" using q by simp
  have "x < 2 powi bitlen p / of_int q"
    unfolding x using bp(2) qpos by (simp add: divide_strict_right_mono)
  also have "\<dots> \<le> 2 powi bitlen p / 2 powi (bitlen q - 1)"
    using bq(1) qpos by (intro divide_left_mono mult_pos_pos) simp_all
  also have "\<dots> = 2 powi (bitlen p - (bitlen q - 1))"
    by (subst power_int_diff) simp_all
  also have "bitlen p - (bitlen q - 1) = ?e + 1" by simp
  finally have ub: "x < 2 powi (?e + 1)" .
  have "?e - 1 = bitlen p - 1 - bitlen q" by simp
  then have "2 powi (?e - 1) = (2::rat) powi (bitlen p - 1 - bitlen q)" by (simp only:)
  also have "\<dots> = 2 powi (bitlen p - 1) / (2::rat) powi bitlen q"
    by (subst power_int_diff) simp_all
  also have "\<dots> \<le> of_int p / 2 powi bitlen q"
    using bp(1) by (intro divide_right_mono) simp_all
  also have "\<dots> < of_int p / of_int q"
    using bq(2) p qpos by (intro divide_strict_left_mono) (simp_all add: mult_pos_pos)
  finally have lb: "2 powi (?e - 1) < x" unfolding x .
  have e: "expo x = (if 2 powi ?e \<le> x then ?e else ?e - 1)"
    by (simp add: expo_def pq Let_def)
  show "2 powi expo x \<le> x" using lb by (simp add: e)
  show "x < 2 powi (expo x + 1)" using ub by (auto simp: e not_le)
qed

lemma expo_unique:
  assumes "0 < x" "2 powi e \<le> x" "x < 2 powi (e + 1)"
  shows "expo x = e"
proof -
  from pow2_less_cancel[OF assms(2) expo_bounds(2)[OF assms(1)]] have "e \<le> expo x" by simp
  moreover from pow2_less_cancel[OF expo_bounds(1)[OF assms(1)] assms(3)] have "expo x \<le> e"
    by simp
  ultimately show ?thesis by simp
qed


lemma round_half_even_ge: "of_int n \<le> r \<Longrightarrow> n \<le> round_half_even r"
proof -
  assume "of_int n \<le> r"
  then have "n \<le> \<lfloor>r\<rfloor>" by (simp add: le_floor_iff)
  moreover have "\<lfloor>r\<rfloor> \<le> round_half_even r" by (simp add: round_half_even_def Let_def)
  ultimately show ?thesis by simp
qed

lemma round_half_even_above_half: "of_int n + 1 / 2 < r \<Longrightarrow> n + 1 \<le> round_half_even r"
proof -
  assume a: "of_int n + 1 / 2 < r"
  then have n: "n \<le> \<lfloor>r\<rfloor>" by (simp add: le_floor_iff)
  show ?thesis
  proof (cases "n = \<lfloor>r\<rfloor>")
    case True
    with a have "1 / 2 < r - of_int \<lfloor>r\<rfloor>" by simp
    then have "round_half_even r = \<lfloor>r\<rfloor> + 1" by (simp add: round_half_even_def Let_def)
    with True show ?thesis by simp
  next
    case False
    with n have "n + 1 \<le> \<lfloor>r\<rfloor>" by simp
    moreover have "\<lfloor>r\<rfloor> \<le> round_half_even r" by (simp add: round_half_even_def Let_def)
    ultimately show ?thesis by simp
  qed
qed



lemma round_double_0: "round_double 0 = 0"
  by (simp add: round_double_def)

lemma round_double_1: "round_double 1 = 1"
  by code_simp



lemma round_double_ge_pow2:
  assumes "0 < x" "- 1022 \<le> expo x"
  shows "2 powi expo x \<le> round_double x"
proof -
  define E where "E = expo x - 52"
  have m: "max (expo \<bar>x\<bar>) (- 1022) - 52 = E" using assms by (simp add: E_def)
  have "(2::rat) powi 52 = 2 powi (expo x - E)" by (simp add: E_def)
  also have "\<dots> = 2 powi expo x / 2 powi E" by (subst power_int_diff) simp_all
  also have "\<dots> \<le> x / 2 powi E"
    using expo_bounds(1)[OF assms(1)] by (intro divide_right_mono) simp_all
  finally have "of_int (2 ^ 52) \<le> x / 2 powi E" by simp
  then have "2 ^ 52 \<le> round_half_even (x / 2 powi E)" by (rule round_half_even_ge)
  then have "(of_int (2 ^ 52) :: rat) \<le> of_int (round_half_even (x / 2 powi E))"
    by (simp only: of_int_le_iff)
  then have st: "of_int (2 ^ 52) * 2 powi E \<le> of_int (round_half_even (x / 2 powi E)) * (2::rat) powi E"
    by (intro mult_right_mono) simp_all
  have "52 + E = expo x" by (simp add: E_def)
  then have "(2::rat) powi expo x = 2 powi (52 + E)" by (simp only:)
  also have "\<dots> = of_int (2 ^ 52) * 2 powi E" by (subst power_int_add) simp_all
  also note st
  finally have "2 powi expo x \<le> of_int (round_half_even (x / 2 powi E)) * (2::rat) powi E" .
  then show ?thesis using assms(1) unfolding round_double_def Let_def m by simp
qed

lemma double_above_600:
  assumes "round_double d = d" "600 < d"
  shows "600 + 2 powi (- 43) \<le> d"
proof (cases "d < 1024")
  case True
  have pos: "0 < d" using assms(2) by simp
  have "expo d = 9" using pos assms(2) True by (intro expo_unique) simp_all
  then have m: "max (expo \<bar>d\<bar>) (- 1022) - 52 = - 43" using pos by simp
  define k where "k = round_half_even (d / 2 powi (- 43))"
  have d: "d = of_int k * 2 powi (- 43)"
    using assms(1) pos unfolding round_double_def Let_def m k_def by simp
  have "600 < of_int k * (2::rat) powi (- 43)" using assms(2) d by simp
  then have "(of_int (600 * 2 ^ 43) :: rat) < of_int k" by (simp add: field_simps)
  then have "600 * 2 ^ 43 < k" by (simp only: of_int_less_iff)
  then have "600 * 2 ^ 43 + 1 \<le> k" by simp
  then have "(of_int (600 * 2 ^ 43 + 1) :: rat) \<le> of_int k" by (simp only: of_int_le_iff)
  then have "of_int (600 * 2 ^ 43 + 1) * 2 powi (- 43) \<le> of_int k * (2::rat) powi (- 43)"
    by (intro mult_right_mono) simp_all
  then show ?thesis unfolding d[symmetric] by simp
next
  case False
  then show ?thesis by simp
qed

lemma quotient_above_1:
  assumes "round_double d = d" "600 < d"
  shows "1 < round_double (d / 600)"
proof -
  let ?x = "d / 600"
  from double_above_600[OF assms] have x: "1 + 2 powi (- 43) / 600 \<le> ?x" by simp
  then have x1: "1 < ?x" "0 < ?x" by simp_all
  show ?thesis
  proof (cases "?x < 2")
    case True
    have "expo ?x = 0" using x1 True by (intro expo_unique) simp_all
    then have m: "max (expo \<bar>?x\<bar>) (- 1022) - 52 = - 52" using x1 by simp
    have "of_int (2 ^ 52) + 1 / 2 < (1 + 2 powi (- 43) / 600) / (2::rat) powi (- 52)" by simp
    also have "\<dots> \<le> ?x / 2 powi (- 52)" using x by (intro divide_right_mono) simp_all
    finally have "2 ^ 52 + 1 \<le> round_half_even (?x / 2 powi (- 52))"
      by (rule round_half_even_above_half)
    then have "(of_int (2 ^ 52 + 1) :: rat) \<le> of_int (round_half_even (?x / 2 powi (- 52)))"
      by (simp only: of_int_le_iff)
    then have "of_int (2 ^ 52 + 1) * 2 powi (- 52) \<le>
        of_int (round_half_even (?x / 2 powi (- 52))) * (2::rat) powi (- 52)"
      by (intro mult_right_mono) simp_all
    moreover have "1 < of_int (2 ^ 52 + 1) * (2::rat) powi (- 52)" by simp
    ultimately have "1 < of_int (round_half_even (?x / 2 powi (- 52))) * (2::rat) powi (- 52)"
      by simp
    then show ?thesis using x1 unfolding round_double_def Let_def m by simp
  next
    case False
    then have "2 powi 1 \<le> ?x" by simp
    from pow2_less_cancel[OF this expo_bounds(2)[OF x1(2)]] have e: "1 \<le> expo ?x" by simp
    then have "(2::rat) powi 1 \<le> 2 powi expo ?x" by (intro power_int_increasing) simp_all
    also have "\<dots> \<le> round_double ?x" using x1(2) e by (intro round_double_ge_pow2) simp_all
    finally show ?thesis by simp
  qed
qed

lemma round_double_ints:
  "round_double 2 = 2" "round_double 3 = 3" "round_double 4 = 4" "round_double 6 = 6"
  "round_double 8 = 8" "round_double 16 = 16"
  by code_simp+

lemma round_double_decimals:
  "round_double (2 / 100) = d_0_02" "round_double (3 / 100) = d_0_03"
  "round_double (4 / 100) = d_0_04"
  "round_double d_0_02 = d_0_02" "round_double d_0_03 = d_0_03" "round_double d_0_04 = d_0_04"
  "round_double (d_0_02 + d_0_04) = 2 * d_0_03" "round_double (2 * d_0_03 / 2) = d_0_03"
  "d_0_03 < (d_0_02 + d_0_04) / 2" "(d_0_02 + d_0_04) / 2 \<le> 1 / 2" "0 \<le> d_0_03"
  by code_simp+





section \<open>Properties of the merger\<close>

subsection \<open>Speaker assignment\<close>

lemma scan_intervals_first:
  "i < length ivs \<Longrightarrow> covers (ivs ! i) m \<Longrightarrow> \<forall>j<i. \<not> covers (ivs ! j) m \<Longrightarrow>
   scan_intervals m ivs = Some (d_speaker (ivs ! i))"
proof (induction ivs arbitrary: i)
  case Nil
  then show ?case by simp
next
  case (Cons d ds)
  show ?case
  proof (cases i)
    case 0
    with Cons.prems show ?thesis by (simp add: covers_def)
  next
    case (Suc k)
    with Cons.prems have "\<not> covers d m" by auto
    moreover from Suc Cons.prems have "scan_intervals m ds = Some (d_speaker (ds ! k))"
      by (intro Cons.IH) auto
    ultimately show ?thesis using Suc by (auto simp: covers_def)
  qed
qed

lemma scan_intervals_none:
  "\<forall>d\<in>set ivs. \<not> covers d m \<Longrightarrow> scan_intervals m ivs = None"
  by (induction ivs) (auto simp: covers_def)

lemma assign_speaker_fields:
  "seg_start (assign_speaker rnd ivs seg) = seg_start seg"
  "seg_end (assign_speaker rnd ivs seg) = seg_end seg"
  "seg_text (assign_speaker rnd ivs seg) = seg_text seg"
  by (simp_all add: assign_speaker_def Let_def)

lemma assign_speaker_label:
  "seg_speaker (assign_speaker rnd ivs seg) =
     Some (case scan_intervals (midpoint rnd seg) ivs of
             None \<Rightarrow> ''Unknown''
           | Some sp \<Rightarrow> if sp = [] then ''Unknown'' else sp)"
  by (simp add: assign_speaker_def Let_def midpoint_def)

text \<open>
  C1 (as amended).  The first loop keeps the segments, their order, times and
  texts.  The midpoint of a segment is \<open>(start + end) / 2\<close> as the code computes it:
  the sum rounded to a double, then halved.  Each segment gets the speaker of the
  first diarization row, in the order given, whose closed range \<open>[start, end]\<close>
  contains that midpoint, an empty speaker label being replaced by \<open>"Unknown"\<close>; a
  segment whose midpoint lies in no row gets \<open>"Unknown"\<close>.  This holds for every
  rounding.
\<close>

theorem label_segments_first_match:
  "length (label_segments rnd segs ivs) = length segs \<and>
   (\<forall>k<length segs.
      seg_start (label_segments rnd segs ivs ! k) = seg_start (segs ! k) \<and>
      seg_end (label_segments rnd segs ivs ! k) = seg_end (segs ! k) \<and>
      seg_text (label_segments rnd segs ivs ! k) = seg_text (segs ! k) \<and>
      (\<forall>i<length ivs.
         covers (ivs ! i) (midpoint rnd (segs ! k)) \<longrightarrow>
         (\<forall>j<i. \<not> covers (ivs ! j) (midpoint rnd (segs ! k))) \<longrightarrow>
         seg_speaker (label_segments rnd segs ivs ! k) =
           Some (if d_speaker (ivs ! i) = [] then ''Unknown'' else d_speaker (ivs ! i))) \<and>
      ((\<forall>d\<in>set ivs. \<not> covers d (midpoint rnd (segs ! k))) \<longrightarrow>
         seg_speaker (label_segments rnd segs ivs ! k) = Some ''Unknown''))"
  by (simp add: label_segments_def assign_speaker_fields assign_speaker_label
      scan_intervals_first scan_intervals_none)

theorem label_segments_first_match_witness:
  "seg_speaker
     (label_segments round_double [mk_segment 2 4 ''there'', mk_segment 7 9 ''bye'']
        [mk_interval 0 2 ''A'', mk_interval 0 4 ''B'', mk_interval 1 5 ''C''] ! 0) = Some ''B'' \<and>
   seg_speaker
     (label_segments round_double [mk_segment 2 4 ''there'', mk_segment 7 9 ''bye'']
        [mk_interval 0 2 ''A'', mk_interval 0 4 ''B'', mk_interval 1 5 ''C''] ! 1) = Some ''Unknown''"
proof -
  let ?segs = "[mk_segment 2 4 ''there'', mk_segment 7 9 ''bye'']"
  let ?ivs = "[mk_interval 0 2 ''A'', mk_interval 0 4 ''B'', mk_interval 1 5 ''C'']"
  note T = label_segments_first_match [of round_double ?segs ?ivs]
  have c: "covers (?ivs ! 1) (midpoint round_double (?segs ! 0))"
    "\<forall>j<1. \<not> covers (?ivs ! j) (midpoint round_double (?segs ! 0))"
    "\<forall>d\<in>set ?ivs. \<not> covers d (midpoint round_double (?segs ! 1))"
    by (simp_all add: covers_def midpoint_def mk_segment_def round_double_ints round_double_1 mk_interval_def)
  from T have "\<forall>i<length ?ivs.
         covers (?ivs ! i) (midpoint round_double (?segs ! 0)) \<longrightarrow>
         (\<forall>j<i. \<not> covers (?ivs ! j) (midpoint round_double (?segs ! 0))) \<longrightarrow>
         seg_speaker (label_segments round_double ?segs ?ivs ! 0) =
           Some (if d_speaker (?ivs ! i) = [] then ''Unknown'' else d_speaker (?ivs ! i))"
    by simp
  from this[rule_format, of 1] c(1) c(2)
  have s0: "seg_speaker (label_segments round_double ?segs ?ivs ! 0) = Some ''B''"
    by (simp add: mk_interval_def)
  from T have "(\<forall>d\<in>set ?ivs. \<not> covers d (midpoint round_double (?segs ! 1))) \<longrightarrow>
         seg_speaker (label_segments round_double ?segs ?ivs ! 1) = Some ''Unknown''"
    by simp
  with c(3) have s1: "seg_speaker (label_segments round_double ?segs ?ivs ! 1) = Some ''Unknown''"
    by blast
  from s0 s1 show ?thesis by blast
qed

text \<open>
  The row \<open>(0, 2, "")\<close> contains the midpoint of the segment \<open>(0, 2, "hi")\<close>, yet the
  segment is labelled \<open>"Unknown"\<close>, which is not the label of that row.  And for the
  segment from \<open>0.02\<close> to \<open>0.04\<close> with the rows \<open>(0, 0.03, "A")\<close> and
  \<open>(0.03, 0.5, "B")\<close>, all of them doubles, the exact midpoint lies above the end of
  the first row and within the second row, yet the segment is labelled \<open>"A"\<close>: the
  midpoint in doubles is \<open>0.03\<close>.
\<close>

theorem first_match_counterexample:
  "covers (mk_interval 0 2 []) (midpoint round_double (mk_segment 0 2 ''hi'')) \<and>
   map seg_speaker (label_segments round_double [mk_segment 0 2 ''hi''] [mk_interval 0 2 []]) =
     [Some ''Unknown''] \<and>
   d_speaker (mk_interval 0 2 []) \<noteq> ''Unknown'' \<and>
   round_double d_0_02 = d_0_02 \<and> round_double d_0_03 = d_0_03 \<and>
   round_double d_0_04 = d_0_04 \<and>
   \<not> covers (mk_interval 0 d_0_03 ''A'') ((d_0_02 + d_0_04) / 2) \<and>
   covers (mk_interval d_0_03 (1 / 2) ''B'') ((d_0_02 + d_0_04) / 2) \<and>
   map seg_speaker
     (label_segments round_double [mk_segment d_0_02 d_0_04 ''x'']
        [mk_interval 0 d_0_03 ''A'', mk_interval d_0_03 (1 / 2) ''B'']) = [Some ''A'']"
proof -
  have 1: "covers (mk_interval 0 2 []) (midpoint round_double (mk_segment 0 2 ''hi''))"
    "map seg_speaker (label_segments round_double [mk_segment 0 2 ''hi''] [mk_interval 0 2 []]) =
     [Some ''Unknown'']"
    "d_speaker (mk_interval 0 2 []) \<noteq> ''Unknown''"
    by (simp_all add: covers_def midpoint_def mk_segment_def round_double_ints round_double_1
        mk_interval_def label_segments_def assign_speaker_def)
  have lt: "d_0_03 < (d_0_02 + d_0_04) / 2" and le: "(d_0_02 + d_0_04) / 2 \<le> 1 / 2"
    by (rule round_double_decimals)+
  have 2: "\<not> covers (mk_interval 0 d_0_03 ''A'') ((d_0_02 + d_0_04) / 2)"
    using lt by (simp add: covers_def mk_interval_def not_le)
  have 3: "covers (mk_interval d_0_03 (1 / 2) ''B'') ((d_0_02 + d_0_04) / 2)"
    using lt le by (simp add: covers_def mk_interval_def less_imp_le)
  have mid: "round_double (round_double (d_0_02 + d_0_04) / 2) = d_0_03"
    by (simp add: round_double_decimals)
  have 4: "map seg_speaker
     (label_segments round_double [mk_segment d_0_02 d_0_04 ''x'']
        [mk_interval 0 d_0_03 ''A'', mk_interval d_0_03 (1 / 2) ''B'']) = [Some ''A'']"
    using round_double_decimals(11)
    by (simp add: label_segments_def assign_speaker_def mk_segment_def mk_interval_def mid)
  from 1 2 3 4 round_double_decimals(4,5,6) show ?thesis by blast
qed

subsection \<open>Coalescing\<close>

lemma strip_snoc_space: "isspace c \<Longrightarrow> strip (xs @ [c]) = strip xs"
proof (cases "\<forall>x\<in>set xs. isspace x")
  case True
  assume "isspace c"
  with True have e: "dropWhile isspace (xs @ [c]) = []" "dropWhile isspace xs = []"
    by (simp_all add: dropWhile_eq_Nil_conv)
  show ?thesis unfolding strip_def e ..
next
  case False
  assume c: "isspace c"
  from False have "dropWhile isspace (xs @ [c]) = dropWhile isspace xs @ [c]"
    by (auto simp: dropWhile_append1)
  with c show ?thesis by (simp add: strip_def)
qed

lemma cat_join: "ts \<noteq> [] \<Longrightarrow> cat ts = join '' '' ts @ '' ''"
  by (induction "'' ''" ts rule: join.induct) (simp_all add: cat_def)

lemma strip_cat: "strip (cat ts) = strip (join '' '' ts)"
proof (cases ts)
  case Nil
  then show ?thesis by (simp add: cat_def)
next
  case (Cons a list)
  then have "cat ts = join '' '' ts @ [CHR '' '']" using cat_join[of ts] by simp
  then show ?thesis using strip_snoc_space[of "CHR '' ''" "join '' '' ts"] by (simp add: isspace_def)
qed

lemma cat_Cons: "cat (t # ts) = t @ '' '' @ cat ts"
  by (simp add: cat_def)

lemma merge_loop_runs:
  "current_text \<noteq> [] \<Longrightarrow>
   finish (merge_loop segs merged_lines (Some sp) current_text) =
     merged_lines @
       (case runs (labelled_texts segs) of
          [] \<Rightarrow> [sp @ '': '' @ strip current_text]
        | (k, vs) # rs \<Rightarrow>
            if k = sp then (sp @ '': '' @ strip (current_text @ cat vs)) # map para rs
            else (sp @ '': '' @ strip current_text) # map para ((k, vs) # rs))"
proof (induction segs arbitrary: merged_lines sp current_text)
  case Nil
  then show ?case by (simp add: finish_def labelled_texts_def merged_line_def fmt_speaker_def)
next
  case (Cons seg segs)
  have IH1: "finish (merge_loop segs ml (Some s) ct) =
     ml @
       (case runs (labelled_texts segs) of
          [] \<Rightarrow> [s @ '': '' @ strip ct]
        | (k, vs) # rs \<Rightarrow>
            if k = s then (s @ '': '' @ strip (ct @ cat vs)) # map para rs
            else (s @ '': '' @ strip ct) # map para ((k, vs) # rs))" if "ct \<noteq> []" for ml s ct
    using Cons.IH[OF that] .
  have lt: "labelled_texts (seg # segs) = (get_speaker seg, strip (get_text seg)) # labelled_texts segs"
    by (simp add: labelled_texts_def)
  show ?case
  proof (cases "sp = get_speaker seg")
    case True
    have "finish (merge_loop (seg # segs) merged_lines (Some sp) current_text) =
          finish (merge_loop segs merged_lines (Some sp) (current_text @ strip (get_text seg) @ '' ''))"
      using True by (simp add: Let_def)
    also have "\<dots> = merged_lines @
       (case runs (labelled_texts segs) of
          [] \<Rightarrow> [sp @ '': '' @ strip (current_text @ strip (get_text seg) @ '' '')]
        | (k, vs) # rs \<Rightarrow>
            if k = sp then (sp @ '': '' @ strip ((current_text @ strip (get_text seg) @ '' '') @ cat vs)) # map para rs
            else (sp @ '': '' @ strip (current_text @ strip (get_text seg) @ '' '')) # map para ((k, vs) # rs))"
      by (rule IH1) simp
    finally show ?thesis using True
      by (auto simp: lt cat_Cons cat_def split: list.splits)
  next
    case False
    have "finish (merge_loop (seg # segs) merged_lines (Some sp) current_text) =
          finish (merge_loop segs (merged_lines @ [merged_line (Some sp) current_text])
                    (Some (get_speaker seg)) (strip (get_text seg) @ '' ''))"
      using False by (simp add: Let_def)
    also have "\<dots> = (merged_lines @ [merged_line (Some sp) current_text]) @
       (case runs (labelled_texts segs) of
          [] \<Rightarrow> [get_speaker seg @ '': '' @ strip (strip (get_text seg) @ '' '')]
        | (k, vs) # rs \<Rightarrow>
            if k = get_speaker seg then (get_speaker seg @ '': '' @ strip ((strip (get_text seg) @ '' '') @ cat vs)) # map para rs
            else (get_speaker seg @ '': '' @ strip (strip (get_text seg) @ '' '')) # map para ((k, vs) # rs))"
      by (rule IH1) simp
    finally show ?thesis using False
      by (auto simp: lt cat_Cons cat_def para_def merged_line_def fmt_speaker_def split: list.splits)
  qed
qed

lemma merge_segments_paragraphs: "merge_segments segs = join ''\<newline>\<newline>'' (paragraphs segs)"
proof (cases segs)
  case Nil
  then show ?thesis by (simp add: merge_segments_def paragraphs_def labelled_texts_def)
next
  case (Cons seg rest)
  have "merge_loop segs [] None [] = merge_loop rest [] (Some (get_speaker seg)) (strip (get_text seg) @ '' '')"
    using Cons by (simp add: Let_def)
  then have "merge_segments segs = join ''\<newline>\<newline>'' (finish (merge_loop rest [] (Some (get_speaker seg)) (strip (get_text seg) @ '' '')))"
    by (simp add: merge_segments_def finish_def split: prod.splits)
  also have "finish (merge_loop rest [] (Some (get_speaker seg)) (strip (get_text seg) @ '' '')) = map para (runs (labelled_texts segs))"
    using merge_loop_runs[of "strip (get_text seg) @ '' ''" rest "[]" "get_speaker seg"] Cons
    by (auto simp: labelled_texts_def para_def cat_def split: list.splits)
  also have "\<dots> = paragraphs segs"
    by (simp add: paragraphs_def para_def strip_cat split: prod.splits)
  finally show ?thesis .
qed

lemma unruns_runs: "unruns (runs xs) = xs"
  by (induction xs rule: runs.induct) (auto simp: unruns_def split: list.splits)

lemma runs_nonempty: "[] \<notin> set (map snd (runs xs))"
  by (induction xs rule: runs.induct) (auto split: list.splits)

lemma runs_distinct_adj: "distinct_adj (map fst (runs xs))"
  by (induction xs rule: runs.induct) (auto split: list.splits)

lemma strip_ends:
  "strip s \<noteq> [] \<Longrightarrow> \<not> isspace (hd (strip s)) \<and> \<not> isspace (last (strip s))"
proof -
  assume ne: "strip s \<noteq> []"
  let ?l = "dropWhile isspace s"
  let ?r = "dropWhile isspace (rev ?l)"
  from ne have r: "?r \<noteq> []" by (simp add: strip_def)
  then have "\<not> isspace (hd ?r)" by (rule hd_dropWhile)
  then have lastok: "\<not> isspace (last (strip s))" using r by (simp add: strip_def last_rev)
  have l: "?l \<noteq> []"
  proof
    assume "?l = []"
    then have "?r = []" by (simp only: rev.simps dropWhile.simps)
    with r show False by contradiction
  qed
  then have hl: "\<not> isspace (hd ?l)" by (rule hd_dropWhile)
  have "rev ?l = takeWhile isspace (rev ?l) @ ?r" by simp
  then have eq: "last (rev ?l) = last ?r" using r by (metis last_appendR)
  have "hd (strip s) = last ?r" using r by (simp add: strip_def hd_rev)
  also have "\<dots> = last (rev ?l)" by (simp only: eq)
  also have "\<dots> = hd ?l" using l by (simp add: last_rev)
  finally show ?thesis using hl lastok by simp
qed

lemma strip_id: "s \<noteq> [] \<Longrightarrow> \<not> isspace (hd s) \<Longrightarrow> \<not> isspace (last s) \<Longrightarrow> strip s = s"
proof -
  assume a: "s \<noteq> []" "\<not> isspace (hd s)" "\<not> isspace (last s)"
  then have "dropWhile isspace s = s" by (cases s) auto
  moreover have "dropWhile isspace (rev s) = rev s" using a by (cases "rev s") (auto simp: hd_rev)
  ultimately show ?thesis by (simp add: strip_def)
qed

lemma join_last:
  "ts \<noteq> [] \<Longrightarrow> last ts \<noteq> [] \<Longrightarrow> join sep ts \<noteq> [] \<and> last (join sep ts) = last (last ts)"
  by (induction sep ts rule: join.induct) auto

lemma join_hd: "ts \<noteq> [] \<Longrightarrow> hd ts \<noteq> [] \<Longrightarrow> hd (join sep ts) = hd (hd ts)"
  by (cases "(sep, ts)" rule: join.cases) auto

lemma strip_join_id:
  assumes "ts \<noteq> []" "\<forall>t\<in>set ts. strip t = t \<and> t \<noteq> []"
  shows "strip (join sep ts) = join sep ts"
proof -
  from assms have h: "hd ts \<noteq> []" "last ts \<noteq> []" "strip (hd ts) = hd ts" "strip (last ts) = last ts"
    by auto
  from h(1,3) strip_ends[of "hd ts"] have 1: "\<not> isspace (hd (hd ts))" by simp
  from h(2,4) strip_ends[of "last ts"] have 2: "\<not> isspace (last (last ts))" by simp
  from join_last[OF assms(1) h(2), of sep] join_hd[OF assms(1) h(1), of sep] 1 2
  show ?thesis by (intro strip_id) simp_all
qed

lemma strip_strip: "strip (strip s) = strip s"
proof (cases "strip s = []")
  case True
  have e: "strip [] = []" by (simp add: strip_def)
  show ?thesis unfolding True e ..
next
  case False
  with strip_ends[of s] show ?thesis by (intro strip_id) simp_all
qed


lemma runs_values: "\<forall>r\<in>set (runs xs). snd r \<noteq> [] \<and> set (snd r) \<subseteq> snd ` set xs"
proof (induction xs rule: runs.induct)
  case 1
  then show ?case by simp
next
  case (2 k v xs)
  show ?case
  proof (cases "runs xs")
    case Nil
    then show ?thesis by simp
  next
    case (Cons r rs)
    obtain k' vs where r: "r = (k', vs)" by (cases r)
    from 2 Cons r have ih: "vs \<noteq> []" "set vs \<subseteq> snd ` set xs"
      "\<forall>r\<in>set rs. snd r \<noteq> [] \<and> set (snd r) \<subseteq> snd ` set xs"
      by simp_all
    have sub: "snd ` set xs \<subseteq> snd ` set ((k, v) # xs)" by auto
    from ih sub have a: "set vs \<subseteq> snd ` set ((k, v) # xs)"
      "\<forall>r\<in>set rs. snd r \<noteq> [] \<and> set (snd r) \<subseteq> snd ` set ((k, v) # xs)"
      by blast+
    show ?thesis
    proof (cases "k = k'")
      case True
      with Cons r have "runs ((k, v) # xs) = (k, v # vs) # rs" by simp
      with a show ?thesis by simp
    next
      case False
      with Cons r have "runs ((k, v) # xs) = (k, [v]) # (k', vs) # rs" by simp
      with a ih(1) show ?thesis by simp
    qed
  qed
qed

lemma paragraphs_spec:
  assumes "\<forall>seg\<in>set segs. strip (get_text seg) \<noteq> []"
  shows "paragraphs segs = spec_paragraphs segs"
proof -
  have "strip (join '' '' vs) = join '' '' vs" if "(k, vs) \<in> set (runs (labelled_texts segs))" for k vs
  proof -
    from runs_values[of "labelled_texts segs"] that
    have ne: "vs \<noteq> []" and sub: "set vs \<subseteq> snd ` set (labelled_texts segs)"
      by force+
    have "\<forall>t\<in>set vs. strip t = t \<and> t \<noteq> []"
    proof
      fix t assume "t \<in> set vs"
      with sub obtain seg where "seg \<in> set segs" "t = strip (get_text seg)"
        by (auto simp: labelled_texts_def)
      with assms show "strip t = t \<and> t \<noteq> []" by (simp add: strip_strip)
    qed
    with ne show ?thesis by (rule strip_join_id)
  qed
  then show ?thesis by (auto simp: paragraphs_def spec_paragraphs_def)
qed

lemma labelled_get_text: "get_text (assign_speaker rnd ivs seg) = get_text seg"
  by (simp add: get_text_def assign_speaker_fields)

lemma label_segments_nonblank:
  "\<forall>seg\<in>set segs. strip (get_text seg) \<noteq> [] \<Longrightarrow>
   \<forall>seg\<in>set (label_segments rnd segs ivs). strip (get_text seg) \<noteq> []"
  by (simp add: label_segments_def labelled_get_text)

lemma assign_merge_paragraphs:
  "assign_speakers_to_transcription rnd segs ivs =
     join ''\<newline>\<newline>'' (paragraphs (label_segments rnd segs ivs))"
proof (cases "segs = []")
  case True
  then show ?thesis
    by (simp add: assign_speakers_to_transcription_def label_segments_def paragraphs_def
        labelled_texts_def)
next
  case False
  then show ?thesis
    by (simp add: assign_speakers_to_transcription_def merge_segments_paragraphs)
qed

lemma merge_example:
  "assign_speakers_to_transcription round_double [mk_segment 0 2 ''hi'', mk_segment 2 4 ''there'']
     [mk_interval 0 2 ''A'', mk_interval 2 4 ''B''] = ''A: hi\<newline>\<newline>B: there''"
  by (simp add: assign_speakers_to_transcription_def label_segments_def assign_speaker_def
      mk_segment_def round_double_ints round_double_1 mk_interval_def merge_segments_def get_speaker_def get_text_def strip_def
      isspace_def merged_line_def fmt_speaker_def)

text \<open>
  C2 (as amended).  The merged text is the paragraphs joined by a blank line, one
  paragraph \<open>"<speaker>: <text>"\<close> for each maximal run of consecutive segments with
  the same assigned speaker, taken in the given order: the runs concatenate to the
  labelled segments, neighbouring runs have different speakers and no run is empty.
  The text of a paragraph is the trimmed texts of the run joined by single spaces
  and trimmed once more; when no segment has a blank text, this is the plain join
  of the specification.  An empty segment list gives the empty string, and the
  example of the specification gives \<open>"A: hi\n\nB: there"\<close>.
\<close>

theorem merge_paragraphs:
  "assign_speakers_to_transcription rnd segs ivs =
     join ''\<newline>\<newline>'' (paragraphs (label_segments rnd segs ivs)) \<and>
   unruns (runs (labelled_texts (label_segments rnd segs ivs))) =
     labelled_texts (label_segments rnd segs ivs) \<and>
   distinct_adj (map fst (runs (labelled_texts (label_segments rnd segs ivs)))) \<and>
   [] \<notin> set (map snd (runs (labelled_texts (label_segments rnd segs ivs)))) \<and>
   ((\<forall>seg\<in>set segs. strip (get_text seg) \<noteq> []) \<longrightarrow>
      paragraphs (label_segments rnd segs ivs) = spec_paragraphs (label_segments rnd segs ivs)) \<and>
   assign_speakers_to_transcription rnd [] ivs = [] \<and>
   assign_speakers_to_transcription round_double [mk_segment 0 2 ''hi'', mk_segment 2 4 ''there'']
     [mk_interval 0 2 ''A'', mk_interval 2 4 ''B''] = ''A: hi\<newline>\<newline>B: there''"
proof (intro conjI impI)
  show "assign_speakers_to_transcription rnd segs ivs =
     join ''\<newline>\<newline>'' (paragraphs (label_segments rnd segs ivs))"
    by (rule assign_merge_paragraphs)
  show "unruns (runs (labelled_texts (label_segments rnd segs ivs))) =
     labelled_texts (label_segments rnd segs ivs)"
    by (rule unruns_runs)
  show "distinct_adj (map fst (runs (labelled_texts (label_segments rnd segs ivs))))"
    by (rule runs_distinct_adj)
  show "[] \<notin> set (map snd (runs (labelled_texts (label_segments rnd segs ivs))))"
    by (rule runs_nonempty)
  show "paragraphs (label_segments rnd segs ivs) = spec_paragraphs (label_segments rnd segs ivs)"
    if "\<forall>seg\<in>set segs. strip (get_text seg) \<noteq> []"
    using that by (intro paragraphs_spec label_segments_nonblank)
  show "assign_speakers_to_transcription rnd [] ivs = []"
    by (simp add: assign_speakers_to_transcription_def)
  show "assign_speakers_to_transcription round_double [mk_segment 0 2 ''hi'', mk_segment 2 4 ''there'']
     [mk_interval 0 2 ''A'', mk_interval 2 4 ''B''] = ''A: hi\<newline>\<newline>B: there''"
    by (rule merge_example)
qed

theorem merge_paragraphs_witness:
  "strip (get_text (mk_segment 0 2 ''hi'')) \<noteq> [] \<and>
   strip (get_text (mk_segment 2 4 ''there'')) \<noteq> [] \<and>
   join ''\<newline>\<newline>''
     (spec_paragraphs
        (label_segments round_double [mk_segment 0 2 ''hi'', mk_segment 2 4 ''there'']
           [mk_interval 0 2 ''A'', mk_interval 2 4 ''B''])) = ''A: hi\<newline>\<newline>B: there''"
proof -
  let ?segs = "[mk_segment 0 2 ''hi'', mk_segment 2 4 ''there'']"
  let ?ivs = "[mk_interval 0 2 ''A'', mk_interval 2 4 ''B'']"
  have t: "strip (get_text (mk_segment 0 2 ''hi'')) \<noteq> []"
    "strip (get_text (mk_segment 2 4 ''there'')) \<noteq> []"
    by (simp_all add: strip_def get_text_def mk_segment_def round_double_ints round_double_1 isspace_def)
  then have h: "\<forall>seg\<in>set ?segs. strip (get_text seg) \<noteq> []" by simp
  note T = merge_paragraphs [of round_double ?segs ?ivs]
  from T h have "paragraphs (label_segments round_double ?segs ?ivs) = spec_paragraphs (label_segments round_double ?segs ?ivs)"
    by blast
  moreover from T have "assign_speakers_to_transcription round_double ?segs ?ivs =
     join ''\<newline>\<newline>'' (paragraphs (label_segments round_double ?segs ?ivs))"
    by blast
  moreover from T have "assign_speakers_to_transcription round_double ?segs ?ivs = ''A: hi\<newline>\<newline>B: there''"
    by blast
  ultimately have "join ''\<newline>\<newline>'' (spec_paragraphs (label_segments round_double ?segs ?ivs)) =
     ''A: hi\<newline>\<newline>B: there''"
    by simp
  with t show ?thesis by blast
qed

text \<open>
  Two segments of one speaker, the first with an empty text: the code gives
  \<open>"A: a"\<close>, the trimmed texts joined by a single space give \<open>"A:  a"\<close>.
\<close>

theorem blank_text_counterexample:
  "assign_speakers_to_transcription round_double [mk_segment 0 2 [], mk_segment 2 4 ''a'']
     [mk_interval 0 5 ''A''] = ''A: a'' \<and>
   join ''\<newline>\<newline>''
     (spec_paragraphs (label_segments round_double [mk_segment 0 2 [], mk_segment 2 4 ''a'']
        [mk_interval 0 5 ''A''])) = ''A:  a''"
  by (simp add: assign_speakers_to_transcription_def label_segments_def assign_speaker_def
      mk_segment_def round_double_ints round_double_1 mk_interval_def merge_segments_def get_speaker_def get_text_def strip_def
      isspace_def merged_line_def fmt_speaker_def spec_paragraphs_def labelled_texts_def)

section \<open>Properties of the chunker\<close>

lemma le_foldr_max: "x \<in> set fs \<Longrightarrow> x \<le> foldr max fs (0::nat)"
  by (induction fs) auto

lemma fresh_notin: "fresh fs \<notin> set fs"
proof
  assume "fresh fs \<in> set fs"
  then have "fresh fs \<le> foldr max fs 0" by (rule le_foldr_max)
  then show False by (simp add: fresh_def)
qed

lemma length_temps: "length (temps fs k) = k"
  by (induction k arbitrary: fs) simp_all

lemma temps_disjoint: "set (temps fs k) \<inter> set fs = {}"
proof (induction k arbitrary: fs)
  case 0
  then show ?case by simp
next
  case (Suc k)
  from Suc[of "fresh fs # fs"] show ?case using fresh_notin[of fs] by auto
qed

lemma distinct_temps: "distinct (temps fs k)"
proof (induction k arbitrary: fs)
  case 0
  then show ?case by simp
next
  case (Suc k)
  from temps_disjoint[of "fresh fs # fs" k] have "fresh fs \<notin> set (temps (fresh fs # fs) k)"
    by auto
  with Suc show ?case by simp
qed

lemma segment_loop_eq:
  "segment_loop rnd fp dur sd is segs w =
     (segs @ zip (temps (files w) (length is)) (map (float_start rnd sd) is),
      w\<lparr>files := rev (temps (files w) (length is)) @ files w,
        ffmpeg_calls := ffmpeg_calls w @
           map (slice_cmd rnd fp dur sd) (zip (temps (files w) (length is)) is)\<rparr>)"
proof (induction "is" arbitrary: segs w)
  case Nil
  then show ?case by simp
next
  case (Cons i "is")
  show ?case
    by (simp add: Cons.IH named_temporary_file_def ffmpeg_def Let_def slice_cmd_def
        float_start_def)
qed






lemma segment_audio_split:
  assumes "\<not> (dur \<le> maxd \<and> file_size \<le> max_file_size)" "maxd \<noteq> 0" "0 < rnd (dur / maxd)"
  shows "segment_audio rnd w fp dur file_size maxd max_file_size =
     (Inr (zip (temps (files w) (float_count rnd dur maxd))
             (map (float_start rnd (float_length rnd dur maxd))
                [0..<float_count rnd dur maxd])),
      w\<lparr>files := rev (temps (files w) (float_count rnd dur maxd)) @ files w,
        ffmpeg_calls := ffmpeg_calls w @
           map (slice_cmd rnd fp dur (float_length rnd dur maxd))
             (zip (temps (files w) (float_count rnd dur maxd))
                [0..<float_count rnd dur maxd])\<rparr>)"
proof -
  have c: "0 < \<lceil>rnd (dur / maxd)\<rceil>" using assms(3) by simp
  have e: "rnd (dur / rnd (of_int \<lceil>rnd (dur / maxd)\<rceil>)) = float_length rnd dur maxd"
    by (simp add: float_length_def)
  have n: "nat \<lceil>rnd (dur / maxd)\<rceil> = float_count rnd dur maxd" by (simp add: float_count_def)
  have c': "\<lceil>rnd (dur / maxd)\<rceil> \<noteq> 0" using c by linarith
  have "segment_audio rnd w fp dur file_size maxd max_file_size =
     (case segment_loop rnd fp dur (float_length rnd dur maxd)
             [0..<float_count rnd dur maxd] [] w of
        (segments, w') \<Rightarrow> (Inr segments, w'))"
    unfolding segment_audio_def Let_def e n by (simp only: assms(1) assms(2) c' if_False)
  then show ?thesis by (simp add: segment_loop_eq)
qed







lemma chunk_plan_whole:
  "dur \<le> maxd \<Longrightarrow> file_size \<le> max_file_size \<Longrightarrow>
   chunk_plan rnd w fp dur file_size maxd max_file_size = Inr [(0, dur)]"
  by (simp add: chunk_plan_def segment_audio_def new_calls_def chunk_duration_def)





lemma round_double_quotients:
  "round_double (5 / 2) = 5 / 2" "round_double (1 / 2) = 1 / 2"
  "round_double (37 / 6) = 6943049425529515 / 1125899906842624"
  "round_double 300 = 300" "round_double 600 = 600" "round_double 1500 = 1500"
  by code_simp+




text \<open>
  C4.  An input within both bounds, equality included, is planned as the input
  file itself at offset 0, whose duration is the whole duration; no file is
  created and no \<open>ffmpeg\<close> command is issued, and with the default bounds
  \<open>transcribe_audio\<close> hands the input file to the model.  No arithmetic is involved.
\<close>

theorem within_bounds_single_chunk:
  assumes "dur \<le> maxd" "file_size \<le> max_file_size"
  shows "segment_audio rnd w fp dur file_size maxd max_file_size = (Inr [(fp, 0)], w) \<and>
         chunk_plan rnd w fp dur file_size maxd max_file_size = Inr [(0, dur)] \<and>
         (maxd = 600 \<and> max_file_size = 100 * 1024 * 1024 \<longrightarrow>
            transcribe_audio rnd w fp dur file_size model =
              (case model fp of
                 Inl e \<Rightarrow> (Inl e, w)
               | Inr (text, segs) \<Rightarrow> (Inr (strip text, segs), w)))"
  using assms
  by (auto simp: chunk_plan_whole segment_audio_def transcribe_audio_def split: sum.splits)

theorem within_bounds_single_chunk_witness:
  "segment_audio round_double w0 0 600 (100 * 1024 * 1024) 600 (100 * 1024 * 1024) =
     (Inr [(0, 0)], w0) \<and>
   chunk_plan round_double w0 0 600 (100 * 1024 * 1024) 600 (100 * 1024 * 1024) =
     Inr [(0, 600)] \<and>
   transcribe_audio round_double w0 0 600 (100 * 1024 * 1024) (\<lambda>p. Inr (''  hello '', [])) =
     (Inr (''hello'', []), w0)"
proof -
  have "strip ''  hello '' = ''hello''" by (simp add: strip_def isspace_def)
  then show ?thesis
    using within_bounds_single_chunk
      [of 600 600 "100 * 1024 * 1024" "100 * 1024 * 1024" round_double w0 0
        "\<lambda>p. Inr (''  hello '', [])"]
    by simp
qed

text \<open>
  C5 (as amended).  A duration of zero is not rejected: within the size bound (and
  with a bound on the duration that is not negative) the plan is the input file at
  offset 0.  Above the size bound the segment count is zero and the division by it
  raises \<open>ZeroDivisionError\<close>.
\<close>

theorem zero_duration_plan:
  "segment_audio round_double w fp 0 file_size maxd max_file_size =
     (if 0 \<le> maxd \<and> file_size \<le> max_file_size then Inr [(fp, 0)]
      else Inl ZeroDivisionError, w)"
  by (simp add: segment_audio_def round_double_0)

text \<open>A file of duration zero and 1024 bytes gets a plan, not an error.\<close>

theorem zero_duration_counterexample:
  "fst (segment_audio round_double w0 0 0 1024 600 (100 * 1024 * 1024)) = Inr [(0, 0)]"
  by (simp add: segment_audio_def)




section \<open>Properties of the transcription loop\<close>

lemma os_remove_present:
  "p \<in> set (files w) \<Longrightarrow> os_remove p w = Inr (w\<lparr>files := removeAll p (files w)\<rparr>)"
  by (simp add: os_remove_def)

lemma transcribe_loop_step:
  "model seg = Inr (text, seg_segments) \<Longrightarrow> seg \<noteq> fp \<Longrightarrow> seg \<in> set (files w) \<Longrightarrow>
   transcribe_loop rnd model fp ((seg, chunk_start) # rest) full_text tsegs w =
   transcribe_loop rnd model fp rest (full_text @ strip text @ '' '')
     (tsegs @ map (offset_segment rnd chunk_start) seg_segments)
     (w\<lparr>files := removeAll seg (files w)\<rparr>)"
  by (simp add: os_remove_present)

lemma filter_removeAll_conj:
  "filter P (removeAll x xs) = filter (\<lambda>p. p \<noteq> x \<and> P p) xs"
  by (induction xs) auto

lemma transcribe_loop_ok:
  assumes "\<forall>p\<in>set (map fst chunks). \<exists>r. model p = Inr r"
    and "distinct (map fst chunks)"
    and "set (map fst chunks) \<subseteq> set (files w)"
    and "fp \<notin> set (map fst chunks)"
  shows "\<exists>r. transcribe_loop rnd model fp chunks full_text tsegs w =
           (Inr r, w\<lparr>files := filter (\<lambda>p. p \<notin> set (map fst chunks)) (files w)\<rparr>)"
  using assms
proof (induction chunks arbitrary: full_text tsegs w)
  case Nil
  then show ?case by simp
next
  case (Cons c rest)
  obtain seg chunk_start where c: "c = (seg, chunk_start)" by (cases c)
  from Cons.prems(1) c obtain tx seg_segments where m: "model seg = Inr (tx, seg_segments)"
    by (cases "model seg") auto
  from Cons.prems c have s: "seg \<noteq> fp" "seg \<in> set (files w)" "seg \<notin> set (map fst rest)"
    by auto
  let ?w = "w\<lparr>files := removeAll seg (files w)\<rparr>"
  have sub: "set (map fst rest) \<subseteq> set (files ?w)" using Cons.prems(3) s(3) by auto
  from Cons.prems have p: "\<forall>p\<in>set (map fst rest). \<exists>r. model p = Inr r"
    "distinct (map fst rest)" "fp \<notin> set (map fst rest)"
    by simp_all
  from Cons.IH[OF p(1) p(2) sub p(3)]
  obtain r where r: "transcribe_loop rnd model fp rest (full_text @ strip tx @ '' '')
     (tsegs @ map (offset_segment rnd chunk_start) seg_segments) ?w =
       (Inr r, ?w\<lparr>files := filter (\<lambda>p. p \<notin> set (map fst rest)) (files ?w)\<rparr>)"
    by blast
  have f: "filter (\<lambda>p. p \<notin> set (map fst rest)) (removeAll seg (files w)) =
           filter (\<lambda>p. p \<notin> set (map fst (c # rest))) (files w)"
    using c by (simp add: filter_removeAll_conj)
  have "transcribe_loop rnd model fp (c # rest) full_text tsegs w =
        transcribe_loop rnd model fp rest (full_text @ strip tx @ '' '')
          (tsegs @ map (offset_segment rnd chunk_start) seg_segments) ?w"
    unfolding c using m s(1) s(2) by (rule transcribe_loop_step)
  with r f show ?case by simp
qed

lemma transcribe_loop_keeps:
  "fp \<in> set (files w) \<Longrightarrow>
   fp \<in> set (files (snd (transcribe_loop rnd model fp chunks full_text tsegs w)))"
proof (induction chunks arbitrary: full_text tsegs w)
  case Nil
  then show ?case by simp
next
  case (Cons c rest)
  obtain seg chunk_start where c: "c = (seg, chunk_start)" by (cases c)
  show ?case
  proof (cases "model seg")
    case (Inl e)
    with Cons.prems c show ?thesis by simp
  next
    case (Inr r)
    obtain tx seg_segments where r: "r = (tx, seg_segments)" by (cases r)
    show ?thesis
    proof (cases "seg = fp")
      case True
      with Inr r c Cons show ?thesis by simp
    next
      case False
      show ?thesis
      proof (cases "seg \<in> set (files w)")
        case True
        have "fp \<in> set (files (w\<lparr>files := removeAll seg (files w)\<rparr>))"
          using Cons.prems False by simp
        from Cons.IH[OF this] show ?thesis
          using Inr r c False True by (simp add: os_remove_present)
      next
        case False
        with Inr r c Cons.prems \<open>seg \<noteq> fp\<close> show ?thesis by (simp add: os_remove_def)
      qed
    qed
  qed
qed

lemma segment_audio_files:
  "\<exists>k. files (snd (segment_audio rnd w fp dur file_size maxd max_file_size)) =
        rev (temps (files w) k) @ files w"
proof (cases "dur \<le> maxd \<and> file_size \<le> max_file_size")
  case True
  then have "files (snd (segment_audio rnd w fp dur file_size maxd max_file_size)) =
      rev (temps (files w) 0) @ files w"
    by (simp add: segment_audio_def)
  then show ?thesis ..
next
  case False
  show ?thesis
  proof (cases "maxd = 0 \<or> \<lceil>rnd (dur / maxd)\<rceil> = 0")
    case True
    with False have "files (snd (segment_audio rnd w fp dur file_size maxd max_file_size)) =
      rev (temps (files w) 0) @ files w"
      by (auto simp: segment_audio_def)
    then show ?thesis ..
  next
    case nz: False
    with False have "files (snd (segment_audio rnd w fp dur file_size maxd max_file_size)) =
      rev (temps (files w) (length [0..<nat \<lceil>rnd (dur / maxd)\<rceil>])) @ files w"
      by (auto simp: segment_audio_def Let_def segment_loop_eq split: prod.splits)
    then show ?thesis ..
  qed
qed

lemma transcribe_audio_keeps:
  assumes "fp \<in> set (files w)"
  shows "fp \<in> set (files (snd (transcribe_audio rnd w fp dur file_size model)))"
proof -
  obtain r w' where sa: "segment_audio rnd w fp dur file_size 600 (100 * 1024 * 1024) = (r, w')"
    by (cases "segment_audio rnd w fp dur file_size 600 (100 * 1024 * 1024)")
  from segment_audio_files[of rnd w fp dur file_size 600 "100 * 1024 * 1024"] sa assms
  have in': "fp \<in> set (files w')" by auto
  show ?thesis
  proof (cases r)
    case (Inl e)
    with sa in' show ?thesis by (simp add: transcribe_audio_def)
  next
    case (Inr segments)
    show ?thesis
    proof (cases "length segments = 1")
      case True
      with sa Inr in' show ?thesis
        by (cases "model fp") (auto simp: transcribe_audio_def)
    next
      case False
      from transcribe_loop_keeps[OF in', of rnd model segments "[]" "[]"]
      show ?thesis using sa Inr False
        by (auto simp: transcribe_audio_def split: prod.splits sum.splits)
    qed
  qed
qed

lemma filter_temps_files: "filter (\<lambda>p. p \<notin> set (temps fs k)) fs = fs"
  using temps_disjoint[of fs k] by (intro filter_True) auto

lemma transcribe_audio_multi:
  assumes "600 < dur" "round_double dur = dur" "\<forall>p. \<exists>r. model p = Inr r"
    and "fp \<in> set (files w)"
  shows "\<exists>r. fst (transcribe_audio round_double w fp dur file_size model) = Inr r"
    and "files (snd (transcribe_audio round_double w fp dur file_size model)) = files w"
    and "2 \<le> float_count round_double dur 600"
proof -
  let ?n = "float_count round_double dur 600" and ?e = "float_length round_double dur 600"
  let ?ps = "temps (files w) ?n"
  let ?chunks = "zip ?ps (map (float_start round_double ?e) [0..<?n])"
  let ?w' = "w\<lparr>files := rev ?ps @ files w,
        ffmpeg_calls := ffmpeg_calls w @
          map (slice_cmd round_double fp dur ?e) (zip ?ps [0..<?n])\<rparr>"
  have q: "1 < round_double (dur / 600)" by (rule quotient_above_1[OF assms(2) assms(1)])
  have d: "\<not> (dur \<le> 600 \<and> file_size \<le> 100 * 1024 * 1024)" "(600::rat) \<noteq> 0"
    "0 < round_double (dur / 600)"
    using assms(1) q by simp_all
  have sa: "segment_audio round_double w fp dur file_size 600 (100 * 1024 * 1024) =
      (Inr ?chunks, ?w')"
    by (rule segment_audio_split[where rnd = round_double, OF d])
  from q have "1 < \<lceil>round_double (dur / 600)\<rceil>" by (simp add: less_ceiling_iff)
  then show n2: "2 \<le> ?n" unfolding float_count_def by linarith
  have fstc: "map fst ?chunks = ?ps" by (simp add: length_temps)
  have len: "length ?chunks \<noteq> 1" using n2 by (simp add: length_temps)
  have fpn: "fp \<notin> set ?ps" using temps_disjoint[of "files w" ?n] assms(4) by auto
  from transcribe_loop_ok[of ?chunks model ?w' fp round_double "[]" "[]"]
  obtain r where r: "transcribe_loop round_double model fp ?chunks [] [] ?w' =
       (Inr r, ?w'\<lparr>files := filter (\<lambda>p. p \<notin> set ?ps) (files ?w')\<rparr>)"
    unfolding fstc using assms(3) fpn by (auto simp: distinct_temps)
  obtain full_text tsegs where rr: "r = (full_text, tsegs)" by (cases r)
  have ta: "transcribe_audio round_double w fp dur file_size model =
     (Inr (strip full_text, tsegs), ?w'\<lparr>files := filter (\<lambda>p. p \<notin> set ?ps) (files ?w')\<rparr>)"
    unfolding transcribe_audio_def sa using len r rr by simp
  then show "\<exists>r. fst (transcribe_audio round_double w fp dur file_size model) = Inr r" by simp
  from ta show "files (snd (transcribe_audio round_double w fp dur file_size model)) = files w"
    by (simp add: filter_temps_files)
qed

text \<open>
  C8 (as amended).  With the default bounds, an existing input file whose duration
  is a double above 600 seconds is cut into at least two temporary chunk files.
  When no call of the model raises, \<open>transcribe_audio\<close> returns and the files that
  exist afterwards are those that existed before: each chunk file is removed right
  after its chunk is transcribed, before the next chunk is handled.  Whatever the
  model does, the input file still exists afterwards.
\<close>

theorem chunk_files_removed:
  assumes "600 < dur" "round_double dur = dur" "\<forall>p. \<exists>r. model p = Inr r"
    and "fp \<in> set (files w)"
  shows "(\<exists>r. fst (transcribe_audio round_double w fp dur file_size model) = Inr r) \<and>
         2 \<le> nat \<lceil>round_double (dur / 600)\<rceil> \<and>
         files (snd (transcribe_audio round_double w fp dur file_size model)) = files w \<and>
         (model' seg = Inr (tx, seg_segments) \<longrightarrow> seg \<noteq> fp \<longrightarrow> seg \<in> set (files w1) \<longrightarrow>
            transcribe_loop rnd model' fp ((seg, chunk_start) # rest) full_text tsegs w1 =
            transcribe_loop rnd model' fp rest (full_text @ strip tx @ '' '')
              (tsegs @ map (offset_segment rnd chunk_start) seg_segments)
              (w1\<lparr>files := removeAll seg (files w1)\<rparr>)) \<and>
         fp \<in> set (files (snd (transcribe_audio rnd w fp dur' file_size' model')))"
  using transcribe_audio_multi[OF assms] transcribe_audio_keeps[OF assms(4)]
    transcribe_loop_step[of model' seg tx seg_segments fp w1 rnd chunk_start rest full_text tsegs]
  unfolding float_count_def by blast

theorem chunk_files_removed_witness:
  "files (snd (transcribe_audio round_double w0 0 1500 0 (\<lambda>p. Inr (''hi'', [])))) = [0] \<and>
   0 \<in> set (files (snd (transcribe_audio round_double w0 0 1500 0 (\<lambda>p. Inl ModelError))))"
proof -
  have h: "(600 :: rat) < 1500" "round_double 1500 = 1500"
    "\<forall>p :: path. \<exists>r. Inr (''hi'', [] :: segment list) = (Inr r :: error + string \<times> segment list)"
    "0 \<in> set (files w0)"
    by (simp_all add: w0_def round_double_quotients)
  note T = chunk_files_removed [where dur = 1500 and model = "\<lambda>p. Inr (''hi'', [])"
      and fp = 0 and w = w0 and file_size = 0 and model' = "\<lambda>p. Inl ModelError"
      and dur' = 1500 and file_size' = 0 and rnd = round_double, OF h]
  from T
  have "files (snd (transcribe_audio round_double w0 0 1500 0 (\<lambda>p. Inr (''hi'', [])))) = files w0"
    by blast
  moreover from T
  have "0 \<in> set (files (snd (transcribe_audio round_double w0 0 1500 0 (\<lambda>p. Inl ModelError))))"
    by blast
  ultimately show ?thesis by (simp add: w0_def)
qed

lemma ceiling_5_2: "\<lceil>(5 :: rat) / 2\<rceil> = 3"
  by (simp add: ceiling_eq_iff)

lemma ceiling_1_2: "\<lceil>(1 :: rat) / 2\<rceil> = 1"
  by (simp add: ceiling_eq_iff)

text \<open>
  A model that raises on the first of three chunks: the exception leaves
  \<open>transcribe_audio\<close> and the three chunk files \<open>1\<close>, \<open>2\<close>, \<open>3\<close> remain.
\<close>

theorem error_path_leak_counterexample:
  "fst (transcribe_audio round_double w0 0 1500 0 (\<lambda>p. Inl ModelError)) = Inl ModelError \<and>
   files (snd (transcribe_audio round_double w0 0 1500 0 (\<lambda>p. Inl ModelError))) = [3, 2, 1, 0] \<and>
   files w0 = [0]"
  by (simp add: transcribe_audio_def segment_audio_def Let_def round_double_quotients
      ceiling_5_2 upt_rec named_temporary_file_def ffmpeg_def fresh_def w0_def)

text \<open>
  A short file above the size bound is cut into one temporary file; the list of
  segments has length 1, the input file is transcribed, and the temporary file
  remains.
\<close>

lemma single_slice_leak:
  "fst (transcribe_audio round_double w0 0 300 (200 * 1024 * 1024) (\<lambda>p. Inr (''hi'', []))) =
     Inr (''hi'', []) \<and>
   files (snd (transcribe_audio round_double w0 0 300 (200 * 1024 * 1024)
                 (\<lambda>p. Inr (''hi'', [])))) = [1, 0]"
  by (simp add: transcribe_audio_def segment_audio_def Let_def round_double_quotients
      ceiling_1_2 upt_rec named_temporary_file_def ffmpeg_def fresh_def w0_def strip_def
      isspace_def)

section \<open>Properties of the rename transform\<close>

lemma replace_nonempty_absent:
  "\<not> sublist old s \<Longrightarrow> replace_nonempty old new s = s"
proof (induction s)
  case Nil
  then show ?case by simp
next
  case (Cons c cs)
  then have "\<not> prefix old (c # cs)" "\<not> sublist old cs"
    by (auto simp: sublist_Cons_right)
  with Cons.IH show ?case by simp
qed

lemma replace_nonempty_first:
  assumes "old \<noteq> []" "\<not> sublist old (a @ butlast old)"
  shows "replace_nonempty old new (a @ old @ b) = a @ new @ replace_nonempty old new b"
  using assms(2)
proof (induction a)
  case Nil
  from assms(1) obtain c cs where e: "old @ b = c # cs" by (cases old) auto
  have "prefix old (c # cs)" unfolding e[symmetric] by simp
  with assms(1) have "replace_nonempty old new (c # cs) =
      new @ replace_nonempty old new (drop (length old) (c # cs))"
    by simp
  then have "replace_nonempty old new (old @ b) =
      new @ replace_nonempty old new (drop (length old) (old @ b))"
    unfolding e[symmetric] .
  then show ?case by simp
next
  case (Cons x a)
  have np: "\<not> prefix old (x # a @ old @ b)"
  proof
    assume p: "prefix old (x # a @ old @ b)"
    have q: "prefix ((x # a) @ butlast old) (x # a @ old @ b)"
      using assms(1) by (simp add: prefixeq_butlast prefix_prefix)
    have "length old \<le> length ((x # a) @ butlast old)" using assms(1) by simp
    with p q have "prefix old ((x # a) @ butlast old)"
      by (metis prefix_length_prefix)
    then have "sublist old ((x # a) @ butlast old)" by (rule prefix_imp_sublist)
    with Cons.prems show False by contradiction
  qed
  from Cons.prems have "\<not> sublist old (a @ butlast old)"
    by (auto simp: sublist_Cons_right)
  with Cons.IH have "replace_nonempty old new (a @ old @ b) = a @ new @ replace_nonempty old new b"
    by simp
  with np show ?case by simp
qed

lemma replace_absent: "\<not> sublist old s \<Longrightarrow> replace old new s = s"
  by (cases "old = []") (simp_all add: replace_def replace_nonempty_absent)

lemma replace_first:
  "old \<noteq> [] \<Longrightarrow> \<not> sublist old (a @ butlast old) \<Longrightarrow>
   replace old new (a @ old @ b) = a @ new @ replace old new b"
  by (simp add: replace_def replace_nonempty_first)

lemma rename_loop_absent:
  "\<forall>l\<in>set lbls. map_of m l \<noteq> None \<and> \<not> sublist (l @ '':'') s \<Longrightarrow> rename_loop lbls m s = Inr s"
  by (induction lbls) (auto simp: replace_absent)

lemma speaker_labels_ex: "speaker_labels ex_rows = [''A'', ''B'']"
  by (simp add: speaker_labels_def ex_rows_def mk_interval_def)

lemma rename_example:
  "rename_speakers ex_rows [(''A'', ''Alice''), (''B'', ''B'')] ''A: hi\<newline>\<newline>B: there'' =
     Inr ''Alice: hi\<newline>\<newline>B: there''"
  by (simp add: rename_speakers_def speaker_labels_ex replace_def)

lemma rename_example_twice:
  "rename_speakers ex_rows [(''A'', ''Alice''), (''B'', ''B'')] ''Alice: hi\<newline>\<newline>B: there'' =
     Inr ''Alice: hi\<newline>\<newline>B: there''"
  by (simp add: rename_speakers_def speaker_labels_ex replace_def)

text \<open>
  C6.  Each step of the rename loop is \<open>updated_text.replace(lbl + ":", new + ":")\<close>.
  This replacement rewrites the leftmost occurrence of \<open>"<old_label>:"\<close> to
  \<open>"<new_label>:"\<close> and goes on in the rest of the text, and it leaves a text
  without any occurrence unchanged.  Hence the transform changes nothing once no
  \<open>"<old_label>:"\<close> occurs in the text.  Renaming \<open>A\<close> to \<open>Alice\<close> in
  \<open>"A: hi\n\nB: there"\<close> gives \<open>"Alice: hi\n\nB: there"\<close>, and a second application
  gives the same text.
\<close>

theorem rename_replaces:
  "(map_of m lbl = Some new \<longrightarrow>
      rename_loop (lbl # lbls) m s =
      rename_loop lbls m (replace (lbl @ '':'') (new @ '':'') s)) \<and>
   (\<not> sublist (lbl @ '':'') (a @ lbl) \<longrightarrow>
      replace (lbl @ '':'') (new @ '':'') (a @ (lbl @ '':'') @ b) =
      a @ (new @ '':'') @ replace (lbl @ '':'') (new @ '':'') b) \<and>
   (\<not> sublist (lbl @ '':'') s \<longrightarrow> replace (lbl @ '':'') (new @ '':'') s = s) \<and>
   ((\<forall>l\<in>set (speaker_labels rows). map_of m l \<noteq> None \<and> \<not> sublist (l @ '':'') s) \<longrightarrow>
      rename_speakers rows m s = Inr s) \<and>
   rename_speakers ex_rows [(''A'', ''Alice''), (''B'', ''B'')] ''A: hi\<newline>\<newline>B: there'' =
     Inr ''Alice: hi\<newline>\<newline>B: there'' \<and>
   rename_speakers ex_rows [(''A'', ''Alice''), (''B'', ''B'')] ''Alice: hi\<newline>\<newline>B: there'' =
     Inr ''Alice: hi\<newline>\<newline>B: there''"
proof (intro conjI impI)
  show "rename_loop (lbl # lbls) m s =
      rename_loop lbls m (replace (lbl @ '':'') (new @ '':'') s)"
    if "map_of m lbl = Some new"
    using that by simp
  show "replace (lbl @ '':'') (new @ '':'') (a @ (lbl @ '':'') @ b) =
      a @ (new @ '':'') @ replace (lbl @ '':'') (new @ '':'') b"
    if "\<not> sublist (lbl @ '':'') (a @ lbl)"
    using that replace_first[of "lbl @ '':''" a "new @ '':''" b] by simp
  show "replace (lbl @ '':'') (new @ '':'') s = s" if "\<not> sublist (lbl @ '':'') s"
    using that by (rule replace_absent)
  show "rename_speakers rows m s = Inr s"
    if "\<forall>l\<in>set (speaker_labels rows). map_of m l \<noteq> None \<and> \<not> sublist (l @ '':'') s"
    using that unfolding rename_speakers_def by (rule rename_loop_absent)
qed (rule rename_example rename_example_twice)+

theorem rename_replaces_witness:
  "rename_loop [''A''] [(''A'', ''Alice'')] ''A: hi'' = Inr ''Alice: hi'' \<and>
   rename_speakers ex_rows [(''A'', ''Alice''), (''B'', ''B'')] ''Alice: hi'' = Inr ''Alice: hi''"
proof -
  have h: "map_of [(''A'', ''Alice'')] ''A'' = Some ''Alice''"
    "\<not> sublist (''A'' @ '':'') ([] @ ''A'')"
    "\<not> sublist (''A'' @ '':'') '' hi''"
    "\<forall>l\<in>set (speaker_labels ex_rows).
        map_of [(''A'', ''Alice''), (''B'', ''B'')] l \<noteq> None \<and> \<not> sublist (l @ '':'') ''Alice: hi''"
    by (simp_all add: speaker_labels_ex sublist_Cons_right)
  note T = rename_replaces [where m = "[(''A'', ''Alice'')]" and lbl = "''A''" and new = "''Alice''"
      and lbls = "[]" and s = "''A: hi''" and a = "[]" and b = "'' hi''"]
  from T h(1) have 1: "rename_loop [''A''] [(''A'', ''Alice'')] ''A: hi'' =
      rename_loop [] [(''A'', ''Alice'')] (replace (''A'' @ '':'') (''Alice'' @ '':'') ''A: hi'')"
    by blast
  from T h(2) have 2: "replace (''A'' @ '':'') (''Alice'' @ '':'') ([] @ (''A'' @ '':'') @ '' hi'') =
      [] @ (''Alice'' @ '':'') @ replace (''A'' @ '':'') (''Alice'' @ '':'') '' hi''"
    by blast
  from rename_replaces [where lbl = "''A''" and new = "''Alice''" and s = "'' hi''"] h(3)
  have 3: "replace (''A'' @ '':'') (''Alice'' @ '':'') '' hi'' = '' hi''"
    by blast
  from rename_replaces [where rows = ex_rows and m = "[(''A'', ''Alice''), (''B'', ''B'')]"
      and s = "''Alice: hi''"] h(4)
  have 4: "rename_speakers ex_rows [(''A'', ''Alice''), (''B'', ''B'')] ''Alice: hi'' = Inr ''Alice: hi''"
    by blast
  from 1 2 3 have "rename_loop [''A''] [(''A'', ''Alice'')] ''A: hi'' = Inr ''Alice: hi''"
    by simp
  with 4 show ?thesis by blast
qed

lemma speaker_labels_cascade: "speaker_labels cascade_rows = [''SPEAKER_00'', ''SPEAKER_01'']"
  by (simp add: speaker_labels_def cascade_rows_def mk_interval_def)

lemma speaker_labels_sorted:
  "sorted (speaker_labels rows) \<and> distinct (speaker_labels rows) \<and>
   set (speaker_labels rows) = d_speaker ` set rows"
  by (simp add: speaker_labels_def)

lemma cascade_sequential:
  "rename_speakers cascade_rows [(''SPEAKER_00'', ''SPEAKER_01''), (''SPEAKER_01'', ''Bob'')]
     cascade_text = Inr ''Bob: hi\<newline>\<newline>Bob: yo''"
  by (simp add: rename_speakers_def speaker_labels_cascade replace_def cascade_text_def)

lemma cascade_simultaneous:
  "simultaneous_rename [(''SPEAKER_00'', ''SPEAKER_01''), (''SPEAKER_01'', ''Bob'')]
     cascade_text = ''SPEAKER_01: hi\<newline>\<newline>Bob: yo''"
  by (simp add: cascade_text_def)

lemma cascade_app:
  "map_sum id final_transcript (apply_rename cascade_input cascade_state) =
     Inr ''Bob: hi\<newline>\<newline>Bob: yo''"
  by (simp add: apply_rename_def cascade_state_def speaker_labels_cascade Let_def
      init_speaker_map_def cascade_input_def replace_def cascade_text_def)

lemma cascade_steps:
  "rename_speakers cascade_rows [(''SPEAKER_00'', ''SPEAKER_01''), (''SPEAKER_01'', ''Bob'')] s =
     Inr (replace ''SPEAKER_01:'' ''Bob:'' (replace ''SPEAKER_00:'' ''SPEAKER_01:'' s))"
  by (simp add: rename_speakers_def speaker_labels_cascade)

text \<open>
  C10.  The labels are taken in sorted order, without duplicates, and the
  replacements are applied one after the other to the whole text.  With
  \<open>SPEAKER_00\<close> renamed to \<open>SPEAKER_01\<close> and \<open>SPEAKER_01\<close> renamed to \<open>Bob\<close>, the
  paragraph of \<open>SPEAKER_00\<close> ends up under \<open>Bob\<close>, where a simultaneous substitution
  puts it under \<open>SPEAKER_01\<close>.
\<close>

theorem sequential_rename_cascades:
  "sorted (speaker_labels rows) \<and> distinct (speaker_labels rows) \<and>
   set (speaker_labels rows) = d_speaker ` set rows \<and>
   speaker_labels cascade_rows = [''SPEAKER_00'', ''SPEAKER_01''] \<and>
   rename_speakers cascade_rows [(''SPEAKER_00'', ''SPEAKER_01''), (''SPEAKER_01'', ''Bob'')] s =
     Inr (replace ''SPEAKER_01:'' ''Bob:'' (replace ''SPEAKER_00:'' ''SPEAKER_01:'' s)) \<and>
   rename_speakers cascade_rows [(''SPEAKER_00'', ''SPEAKER_01''), (''SPEAKER_01'', ''Bob'')]
     cascade_text = Inr ''Bob: hi\<newline>\<newline>Bob: yo'' \<and>
   map_sum id final_transcript (apply_rename cascade_input cascade_state) =
     Inr ''Bob: hi\<newline>\<newline>Bob: yo'' \<and>
   simultaneous_rename [(''SPEAKER_00'', ''SPEAKER_01''), (''SPEAKER_01'', ''Bob'')]
     cascade_text = ''SPEAKER_01: hi\<newline>\<newline>Bob: yo''"
  using speaker_labels_sorted[of rows] speaker_labels_cascade cascade_steps[of s]
    cascade_sequential cascade_app cascade_simultaneous
  by blast

section \<open>Failures of transcription and diarization\<close>

lemma diarization_block_raises:
  assumes "from_pretrained dz = Some e \<or>
           (from_pretrained dz = None \<and> run_pipeline dz (fresh (files w)) = Inl e)"
  shows "\<exists>w'. diarization_block rnd dz fp ss w = (ss, w') \<and>
              notices w' = notices w @ [StError e] \<and> set (files w) \<subseteq> set (files w')"
  using assms
proof
  assume "from_pretrained dz = Some e"
  then have "diarization_block rnd dz fp ss w = (ss, notify (StError e) w)"
    by (simp add: diarization_block_def diarization_try_def)
  then show ?thesis by (simp add: notify_def)
next
  assume a: "from_pretrained dz = None \<and> run_pipeline dz (fresh (files w)) = Inl e"
  let ?w1 = "ffmpeg (Resample fp 16000 (fresh (files w))) (w\<lparr>files := fresh (files w) # files w\<rparr>)"
  have "diarization_block rnd dz fp ss w = (ss, notify (StError e) ?w1)"
    using a
    by (simp add: diarization_block_def diarization_try_def convert_to_wav_def
        named_temporary_file_def Let_def)
  then show ?thesis by (auto simp: notify_def ffmpeg_def)
qed


lemma on_transcribe_diarization_raises:
  assumes tmp: "named_temporary_file w = (file_path, wa)"
    and tr: "transcribe_audio rnd wa file_path dur file_size model = (Inr (tx, segs), wb)"
    and dz: "from_pretrained dz = Some e \<or>
             (from_pretrained dz = None \<and> run_pipeline dz (fresh (files wb)) = Inl e)"
  shows "\<exists>w'. on_transcribe rnd (Some (dur, file_size)) True True model dz ss w =
           (None,
            (cleared ss)\<lparr>transcription_text := tx, transcription_segments := segs,
                          final_transcript := tx, transcription_done := True\<rparr>,
            w') \<and>
           notices w' = notices wb @ [StError e, StSuccess]"
proof -
  let ?ss1 = "(cleared ss)\<lparr>transcription_text := tx, transcription_segments := segs,
                          final_transcript := tx, transcription_done := True\<rparr>"
  from diarization_block_raises[OF dz, of rnd file_path ?ss1]
  obtain w2 where w2: "diarization_block rnd dz file_path ?ss1 wb = (?ss1, w2)"
    "notices w2 = notices wb @ [StError e]" "set (files wb) \<subseteq> set (files w2)"
    by blast
  from tmp have "file_path \<in> set (files wa)"
    by (auto simp: named_temporary_file_def Let_def)
  from transcribe_audio_keeps[OF this, of rnd dur file_size model] tr
  have "file_path \<in> set (files wb)" by simp
  with w2(3) have "file_path \<in> set (files w2)" by blast
  then have rm: "os_remove file_path w2 = Inr (w2\<lparr>files := removeAll file_path (files w2)\<rparr>)"
    by (rule os_remove_present)
  have "on_transcribe rnd (Some (dur, file_size)) True True model dz ss w =
          (None, ?ss1, notify StSuccess (w2\<lparr>files := removeAll file_path (files w2)\<rparr>))"
    by (simp add: on_transcribe_def tmp tr w2(1) rm Let_def)
  moreover have "notices (notify StSuccess (w2\<lparr>files := removeAll file_path (files w2)\<rparr>)) =
          notices wb @ [StError e, StSuccess]"
    by (simp add: notify_def w2(2))
  ultimately show ?thesis by blast
qed

lemma on_transcribe_transcription_raises:
  assumes tmp: "named_temporary_file w = (file_path, wa)"
    and tr: "transcribe_audio rnd wa file_path dur file_size model = (Inl e, wb)"
  shows "on_transcribe rnd (Some (dur, file_size)) enable_diarization pipeline_imported model dz ss w =
           (Some e, cleared ss, wb)"
  by (simp add: on_transcribe_def tmp tr Let_def)

text \<open>
  C7.  When the transcription has returned and the diarization raises (loading the
  pipeline or running it), the exception is caught and shown with \<open>st.error\<close>, the
  press of the button ends normally with the success notice, no diarization rows
  are stored, and the final transcript is the plain text of the transcription,
  also after the results are displayed.  When the transcription raises, the
  exception leaves \<open>main\<close>: the session state stays cleared and nothing is shown.
\<close>

theorem diarization_failure_nonfatal:
  assumes "named_temporary_file w = (file_path, wa)"
  shows "(transcribe_audio rnd wa file_path dur file_size model = (Inr (tx, segs), wb) \<longrightarrow>
          (from_pretrained dz = Some e \<or>
             (from_pretrained dz = None \<and> run_pipeline dz (fresh (files wb)) = Inl e)) \<longrightarrow>
          (case on_transcribe rnd (Some (dur, file_size)) True True model dz ss w of
             (raised, ss', w') \<Rightarrow>
               raised = None \<and> transcription_done ss' \<and> transcription_text ss' = tx \<and>
               final_transcript ss' = tx \<and> diarization_results ss' = [] \<and>
               notices w' = notices wb @ [StError e, StSuccess] \<and>
               final_transcript (display_results rnd ss') = tx)) \<and>
         (transcribe_audio rnd wa file_path dur file_size model = (Inl e, wb) \<longrightarrow>
          on_transcribe rnd (Some (dur, file_size)) enable_diarization pipeline_imported model dz ss w =
            (Some e, cleared ss, wb) \<and>
          \<not> transcription_done (cleared ss) \<and> final_transcript (cleared ss) = [] \<and>
          display_results rnd (cleared ss) = cleared ss)"
proof (intro conjI impI)
  assume tr: "transcribe_audio rnd wa file_path dur file_size model = (Inr (tx, segs), wb)"
    and dz: "from_pretrained dz = Some e \<or>
             (from_pretrained dz = None \<and> run_pipeline dz (fresh (files wb)) = Inl e)"
  from on_transcribe_diarization_raises[OF assms tr dz, of ss]
  obtain w' where r: "on_transcribe rnd (Some (dur, file_size)) True True model dz ss w =
           (None,
            (cleared ss)\<lparr>transcription_text := tx, transcription_segments := segs,
                          final_transcript := tx, transcription_done := True\<rparr>,
            w')" "notices w' = notices wb @ [StError e, StSuccess]"
    by blast
  show "case on_transcribe rnd (Some (dur, file_size)) True True model dz ss w of
             (raised, ss', w') \<Rightarrow>
               raised = None \<and> transcription_done ss' \<and> transcription_text ss' = tx \<and>
               final_transcript ss' = tx \<and> diarization_results ss' = [] \<and>
               notices w' = notices wb @ [StError e, StSuccess] \<and>
               final_transcript (display_results rnd ss') = tx"
    unfolding r(1) using r(2) by (simp add: cleared_def display_results_def)
next
  assume tr: "transcribe_audio rnd wa file_path dur file_size model = (Inl e, wb)"
  show "on_transcribe rnd (Some (dur, file_size)) enable_diarization pipeline_imported model dz ss w =
            (Some e, cleared ss, wb)"
    using assms tr by (rule on_transcribe_transcription_raises)
  show "\<not> transcription_done (cleared ss)" by (simp add: cleared_def)
  show "final_transcript (cleared ss) = []" by (simp add: cleared_def)
  show "display_results rnd (cleared ss) = cleared ss"
    by (simp add: display_results_def cleared_def)
qed

lemma tmp_w0: "named_temporary_file w0 = (1, w0\<lparr>files := [1, 0]\<rparr>)"
  by (simp add: named_temporary_file_def w0_def fresh_def)

lemma transcribe_short_ok:
  "transcribe_audio round_double (w0\<lparr>files := [1, 0]\<rparr>) 1 10 1024 (\<lambda>p. Inr (''hello'', [])) =
     (Inr (''hello'', []), w0\<lparr>files := [1, 0]\<rparr>)"
  by (simp add: transcribe_audio_def segment_audio_def strip_def isspace_def)

lemma transcribe_short_raises:
  "transcribe_audio round_double (w0\<lparr>files := [1, 0]\<rparr>) 1 10 1024 (\<lambda>p. Inl ModelError) =
     (Inl ModelError, w0\<lparr>files := [1, 0]\<rparr>)"
  by (simp add: transcribe_audio_def segment_audio_def)

theorem diarization_failure_nonfatal_witness:
  "fst (on_transcribe round_double (Some (10, 1024)) True True (\<lambda>p. Inr (''hello'', [])) failing_loader
          blank_state w0) = None \<and>
   final_transcript (display_results round_double
     (fst (snd (on_transcribe round_double (Some (10, 1024)) True True (\<lambda>p. Inr (''hello'', []))
                  failing_loader blank_state w0)))) = ''hello'' \<and>
   notices (snd (snd (on_transcribe round_double (Some (10, 1024)) True True (\<lambda>p. Inr (''hello'', []))
                  failing_loader blank_state w0))) = [StError PipelineError, StSuccess] \<and>
   fst (on_transcribe round_double (Some (10, 1024)) True True (\<lambda>p. Inl ModelError) failing_loader
          blank_state w0) = Some ModelError"
proof -
  have dz: "from_pretrained failing_loader = Some PipelineError \<or>
      (from_pretrained failing_loader = None \<and>
       run_pipeline failing_loader (fresh (files (w0\<lparr>files := [1, 0]\<rparr>))) = Inl PipelineError)"
    by (simp add: failing_loader_def)
  have a: "case on_transcribe round_double (Some (10, 1024)) True True (\<lambda>p. Inr (''hello'', []))
                  failing_loader blank_state w0 of
             (raised, ss', w') \<Rightarrow>
               raised = None \<and> transcription_done ss' \<and> transcription_text ss' = ''hello'' \<and>
               final_transcript ss' = ''hello'' \<and> diarization_results ss' = [] \<and>
               notices w' = notices (w0\<lparr>files := [1, 0]\<rparr>) @ [StError PipelineError, StSuccess] \<and>
               final_transcript (display_results round_double ss') = ''hello''"
    by (rule diarization_failure_nonfatal [OF tmp_w0, THEN conjunct1, rule_format,
          OF transcribe_short_ok dz])
  have b: "on_transcribe round_double (Some (10, 1024)) True True (\<lambda>p. Inl ModelError) failing_loader
          blank_state w0 = (Some ModelError, cleared blank_state, w0\<lparr>files := [1, 0]\<rparr>)"
    by (rule diarization_failure_nonfatal [OF tmp_w0, THEN conjunct2, rule_format,
          OF transcribe_short_raises, THEN conjunct1])
  from a b show ?thesis by (auto simp: w0_def split: prod.splits)
qed

end
